theory Spec2Isabelle
  imports Main "HOL-Library.AList" "HOL-Library.Sublist"
begin

section \<open>Text primitives of the Python runtime\<close>

text \<open>
  A Python \<open>str\<close> is modelled as a \<open>string\<close>; a character stands for a code point
  below 256. The predicates below are those of CPython on these code points:
  \<open>str.isspace\<close> (which is also the class \<open>\s\<close> of module \<open>re\<close> on \<open>str\<close> patterns),
  the class \<open>\w\<close>, and lower-casing of the ASCII letters (the only letters that occur
  in the patterns of this program).
\<close>

definition isspace :: "char \<Rightarrow> bool" where
  "isspace c \<longleftrightarrow> (of_char c :: nat) \<in> {9, 10, 11, 12, 13, 28, 29, 30, 31, 32, 133, 160}"

definition isword :: "char \<Rightarrow> bool" where
  "isword c \<longleftrightarrow>
     (let n = (of_char c :: nat) in
        (48 \<le> n \<and> n \<le> 57) \<or> (65 \<le> n \<and> n \<le> 90) \<or> n = 95 \<or> (97 \<le> n \<and> n \<le> 122) \<or>
        n \<in> {170, 178, 179, 181, 185, 186, 188, 189, 190} \<or>
        (192 \<le> n \<and> n \<le> 214) \<or> (216 \<le> n \<and> n \<le> 246) \<or> 248 \<le> n)"

definition lower :: "char \<Rightarrow> char" where
  "lower c = (let n = (of_char c :: nat) in if 65 \<le> n \<and> n \<le> 90 then char_of (n + 32) else c)"

text \<open>\<open>s.strip()\<close>: leading and trailing whitespace removed.\<close>

definition strip :: "string \<Rightarrow> string" where
  "strip s = rev (dropWhile isspace (rev (dropWhile isspace s)))"

text \<open>\<open>t in s\<close> and \<open>s.find(t)\<close> (\<open>None\<close> stands for Python's \<open>-1\<close>).\<close>

fun contains :: "string \<Rightarrow> string \<Rightarrow> bool" where
  "contains t [] = (t = [])"
| "contains t (x # xs) = (prefix t (x # xs) \<or> contains t xs)"

fun find :: "string \<Rightarrow> string \<Rightarrow> nat option" where
  "find t [] = (if t = [] then Some 0 else None)"
| "find t (x # xs) =
     (if prefix t (x # xs) then Some 0
      else (case find t xs of None \<Rightarrow> None | Some i \<Rightarrow> Some (Suc i)))"

definition startswith :: "string \<Rightarrow> string \<Rightarrow> bool" where
  "startswith s t = prefix t s"

section \<open>The fragment of Python regular expressions the program uses\<close>

text \<open>
  The patterns of the program are built from literal text, the classes \<open>.\<close> (under
  \<open>re.DOTALL\<close>), \<open>\s\<close>, \<open>\S\<close> and \<open>\w\<close> under the greedy quantifiers \<open>*\<close> and \<open>+\<close> or
  the lazy \<open>*?\<close>, an optional item \<open>?\<close>, alternation, concatenation and capturing
  groups. \<open>rmatch\<close> lists every way the pattern matches a prefix of the text, in the order
  in which the backtracking matcher of \<open>re\<close> tries them: the text consumed and the
  captured groups in order of their opening parenthesis. The first element is the match
  \<open>re\<close> reports. The flag is \<open>re.IGNORECASE\<close>.
\<close>

datatype cls = Any | Space | NonSpace | Word

fun cls_ok :: "cls \<Rightarrow> char \<Rightarrow> bool" where
  "cls_ok Any c = True"
| "cls_ok Space c = isspace c"
| "cls_ok NonSpace c = (\<not> isspace c)"
| "cls_ok Word c = isword c"

datatype rx =
    Lit string
  | Star cls
  | Plus cls
  | Lazy cls
  | Opt rx
  | Group rx
  | Cat "rx list"
  | Alt "rx list"

text \<open>The prefixes of the longest run of characters of a class, shortest first.\<close>

fun runs :: "(char \<Rightarrow> bool) \<Rightarrow> string \<Rightarrow> string list" where
  "runs p [] = [[]]"
| "runs p (x # xs) = [] # (if p x then map ((#) x) (runs p xs) else [])"

definition same_text :: "bool \<Rightarrow> string \<Rightarrow> string \<Rightarrow> bool" where
  "same_text ic t u = (if ic then map lower t = map lower u else t = u)"

fun rmatch :: "bool \<Rightarrow> rx \<Rightarrow> string \<Rightarrow> (string \<times> string list) list" where
  "rmatch ic (Lit t) s =
     (if length t \<le> length s \<and> same_text ic t (take (length t) s)
      then [(take (length t) s, [])] else [])"
| "rmatch ic (Star c) s = map (\<lambda>u. (u, [])) (rev (runs (cls_ok c) s))"
| "rmatch ic (Plus c) s = map (\<lambda>u. (u, [])) (rev (tl (runs (cls_ok c) s)))"
| "rmatch ic (Lazy c) s = map (\<lambda>u. (u, [])) (runs (cls_ok c) s)"
| "rmatch ic (Opt r) s = rmatch ic r s @ [([], [])]"
| "rmatch ic (Group r) s = map (\<lambda>(u, g). (u, u # g)) (rmatch ic r s)"
| "rmatch ic (Cat []) s = [([], [])]"
| "rmatch ic (Cat (r # rs)) s =
     concat (map (\<lambda>(u, g). map (\<lambda>(v, h). (u @ v, g @ h)) (rmatch ic (Cat rs) (drop (length u) s)))
                 (rmatch ic r s))"
| "rmatch ic (Alt []) s = []"
| "rmatch ic (Alt (r # rs)) s = rmatch ic r s @ rmatch ic (Alt rs) s"

text \<open>
  \<open>re.search\<close>: the groups of the first match at the leftmost position that has one.
  \<open>re.findall\<close>: the groups of the successive non-overlapping matches; the scan resumes
  where the previous match ended (one character further after an empty match).
\<close>

fun search :: "bool \<Rightarrow> rx \<Rightarrow> string \<Rightarrow> string list option" where
  "search ic r [] = (case rmatch ic r [] of [] \<Rightarrow> None | (u, g) # _ \<Rightarrow> Some g)"
| "search ic r (x # xs) =
     (case rmatch ic r (x # xs) of [] \<Rightarrow> search ic r xs | (u, g) # _ \<Rightarrow> Some g)"

function findall :: "bool \<Rightarrow> rx \<Rightarrow> string \<Rightarrow> string list list" where
  "findall ic r s =
     (case rmatch ic r s of
        [] \<Rightarrow> (if s = [] then [] else findall ic r (tl s))
      | (u, g) # _ \<Rightarrow> g # (if s = [] then [] else findall ic r (drop (max 1 (length u)) s)))"
  by pat_completeness auto
termination
  by (relation "measure (\<lambda>(ic, r, s). length s)") auto

declare findall.simps [simp del]

section \<open>The multi-file resolver\<close>

definition fence :: string where
  "fence = ''```''"

definition newline :: string where
  "newline = ''\<newline>''"

text \<open>The tail \<open>\s*\n(.*?)```\<close> shared by the patterns of \<open>_parse_web_files\<close>.\<close>

definition block_tail :: "rx list" where
  "block_tail = [Star Space, Lit newline, Group (Lazy Any), Lit fence]"

text \<open>\<open>pattern1 = r"```(\S+\.(?:html|css|js|json))\s*\n(.*?)```"\<close>\<close>

definition pattern1 :: rx where
  "pattern1 =
     Cat ([Lit fence,
           Group (Cat [Plus NonSpace, Lit ''.'',
                       Alt [Lit ''html'', Lit ''css'', Lit ''js'', Lit ''json'']])]
          @ block_tail)"

text \<open>\<open>r"```html\s*\n(.*?)```"\<close> and its siblings, for a language tag.\<close>

definition tag_pattern :: "string \<Rightarrow> rx" where
  "tag_pattern tag = Cat (Lit (fence @ tag) # block_tail)"

definition html_patterns :: "rx list" where
  "html_patterns = [tag_pattern ''html'', tag_pattern ''HTML'', tag_pattern ''htm'']"

definition css_patterns :: "rx list" where
  "css_patterns = [tag_pattern ''css'', tag_pattern ''CSS'']"

definition js_patterns :: "rx list" where
  "js_patterns = [tag_pattern ''javascript'', tag_pattern ''js'',
                  tag_pattern ''JavaScript'', tag_pattern ''JS'']"

text \<open>\<open>generic_pattern = r"```(?:\w*)\s*\n(.*?)```"\<close>\<close>

definition generic_pattern :: rx where
  "generic_pattern = Cat ([Lit fence, Star Word] @ block_tail)"

text \<open>
  The loop \<open>for pattern in patterns: match = re.search(pattern, response, re.DOTALL);
  if match: ... match.group(1) ...; break\<close>: group 1 of the first pattern that matches.
\<close>

fun first_match :: "rx list \<Rightarrow> string \<Rightarrow> string option" where
  "first_match [] s = None"
| "first_match (p # ps) s =
     (case search False p s of Some (g # _) \<Rightarrow> Some g | _ \<Rightarrow> first_match ps s)"

definition html_head :: string where
  "html_head =
     ''<!DOCTYPE html>\<newline>'' @
     ''<html lang=\"en\">\<newline>'' @
     ''<head>\<newline>'' @
     ''    <meta charset=\"UTF-8\">\<newline>'' @
     ''    <meta name=\"viewport\" content=\"width=device-width, initial-scale=1.0\">\<newline>'' @
     ''    <title>Generated App</title>\<newline>'' @
     ''    <script src=\"https://cdn.tailwindcss.com\"></script>\<newline>'' @
     ''</head>\<newline>''"

definition wrap_script :: "string \<Rightarrow> string" where
  "wrap_script content =
     html_head @
     ''<body class=\"bg-gray-100 min-h-screen\">\<newline>'' @
     ''    <div id=\"app\" class=\"container mx-auto p-4\">\<newline>'' @
     ''        <script>'' @ content @ ''</script>\<newline>'' @
     ''    </div>\<newline>'' @
     ''</body>\<newline>'' @
     ''</html>''"

definition placeholder :: "string \<Rightarrow> string" where
  "placeholder response =
     html_head @
     ''<body class=\"bg-gray-100 min-h-screen flex items-center justify-center\">\<newline>'' @
     ''    <div class=\"bg-white p-8 rounded-lg shadow-lg max-w-2xl\">\<newline>'' @
     ''        <h1 class=\"text-2xl font-bold mb-4\">Generated Content</h1>\<newline>'' @
     ''        <pre class=\"bg-gray-100 p-4 rounded overflow-auto text-sm\">'' @
     take 2000 response @ ''</pre>\<newline>'' @
     ''    </div>\<newline>'' @
     ''</body>\<newline>'' @
     ''</html>''"

text \<open>
  A Python \<open>dict\<close> keeps its keys in the order of their first insertion and an
  assignment to a present key replaces the value in place: an association list under
  \<open>AList.update\<close>.
\<close>

type_synonym files = "(string \<times> string) list"

definition has_key :: "files \<Rightarrow> string \<Rightarrow> bool" where
  "has_key fs k \<longleftrightarrow> map_of fs k \<noteq> None"

text \<open>The four stages of \<open>WebCodeAgent._parse_web_files\<close>, in the order of the source.\<close>

definition explicit_files :: "string \<Rightarrow> files" where
  "explicit_files response =
     fold (\<lambda>m fs. case m of [filename, content] \<Rightarrow> AList.update (strip filename) (strip content) fs
                            | _ \<Rightarrow> fs)
          (findall True pattern1 response) []"

definition tagged_files :: "string \<Rightarrow> files \<Rightarrow> files" where
  "tagged_files response files0 =
     (let files1 =
            (if \<not> has_key files0 ''index.html'' then
               (case first_match html_patterns response of
                  Some g \<Rightarrow> AList.update ''index.html'' (strip g) files0
                | None \<Rightarrow> files0)
             else files0);
          files2 =
            (if \<not> has_key files1 ''styles.css'' \<and> \<not> has_key files1 ''style.css'' then
               (case first_match css_patterns response of
                  Some g \<Rightarrow> AList.update ''styles.css'' (strip g) files1
                | None \<Rightarrow> files1)
             else files1)
      in if \<not> has_key files2 ''script.js'' \<and> \<not> has_key files2 ''app.js'' then
           (case first_match js_patterns response of
              Some g \<Rightarrow> AList.update ''script.js'' (strip g) files2
            | None \<Rightarrow> files2)
         else files2)"

definition generic_fallback :: "string \<Rightarrow> files \<Rightarrow> files" where
  "generic_fallback response files0 =
     (if files0 = [] then
        (case findall False generic_pattern response of
           (g # _) # _ \<Rightarrow>
             (let content = strip g in
                if startswith content ''<!DOCTYPE'' \<or> startswith content ''<html'' \<or>
                   contains ''<'' content
                then AList.update ''index.html'' content files0
                else AList.update ''index.html'' (wrap_script content) files0)
         | _ \<Rightarrow> files0)
      else files0)"

definition ultimate_fallback :: "string \<Rightarrow> files \<Rightarrow> files" where
  "ultimate_fallback response files0 =
     (if files0 = [] then
        (if contains ''<!DOCTYPE'' response \<or> contains ''<html'' response then
           (let html_start =
                  (case find ''<!DOCTYPE'' response of None \<Rightarrow> find ''<html'' response
                                                     | Some i \<Rightarrow> Some i)
            in case html_start of
                 Some i \<Rightarrow> AList.update ''index.html'' (strip (drop i response)) files0
               | None \<Rightarrow> files0)
         else AList.update ''index.html'' (placeholder response) files0)
      else files0)"

definition parse_web_files :: "string \<Rightarrow> files" where
  "parse_web_files response =
     ultimate_fallback response
       (generic_fallback response (tagged_files response (explicit_files response)))"

section \<open>Single-file code extraction (\<open>KolosalClient._extract_code\<close>)\<close>

text \<open>
  \<open>Failure m\<close> is an exception raised by a collaborator (the LLM transport, the sandbox
  SDK) with message \<open>m\<close>; \<open>Re_error\<close> is \<open>re.error\<close>, raised when a pattern does not
  compile. \<open>Unmodelled_pattern\<close> is no Python exception: it marks a pattern outside the
  fragment of the pattern syntax modelled here, about which nothing is said.
\<close>

datatype exn = Failure string | Re_error | Unmodelled_pattern

text \<open>
  The pattern \<open>rf"```{language}\n?(.*?)```"\<close> splices the language into the pattern text
  as it is. A language made of ASCII characters without a meaning in the pattern syntax
  stands for itself. Of the other languages, those are modelled that add parentheses only:
  when the parentheses do not balance, compiling the pattern raises \<open>re.error\<close>.
\<close>

definition re_special :: "char \<Rightarrow> bool" where
  "re_special c \<longleftrightarrow> c \<in> set ''.^$*+?{}[]|()'' \<or> c = CHR 0x5C"

definition plain :: "char \<Rightarrow> bool" where
  "plain c \<longleftrightarrow> \<not> re_special c \<and> (of_char c :: nat) < 128"

fun parens_ok :: "nat \<Rightarrow> string \<Rightarrow> bool" where
  "parens_ok d [] = (d = 0)"
| "parens_ok d (c # cs) =
     (if c = CHR ''('' then parens_ok (Suc d) cs
      else if c = CHR '')'' then 0 < d \<and> parens_ok (d - 1) cs
      else parens_ok d cs)"

definition compile_tag :: "string \<Rightarrow> exn + rx" where
  "compile_tag lang =
     (if list_all plain lang then Inr (Lit lang)
      else if list_all (\<lambda>c. plain c \<or> c = CHR ''('' \<or> c = CHR '')'') lang \<and> \<not> parens_ok 0 lang
      then Inl Re_error
      else Inl Unmodelled_pattern)"

record extraction =
  code :: string
  language :: string
  raw_response :: string

definition extract_code :: "string \<Rightarrow> string \<Rightarrow> exn + extraction" where
  "extract_code response lang =
     (case compile_tag lang of
        Inl e \<Rightarrow> Inl e
      | Inr tag \<Rightarrow>
          (case search True (Cat [Lit fence, tag, Opt (Lit newline), Group (Lazy Any), Lit fence])
                  response of
             Some (g # _) \<Rightarrow> Inr \<lparr>code = strip g, language = lang, raw_response = response\<rparr>
           | _ \<Rightarrow>
               (case search False (Cat [Lit fence, Opt (Lit newline), Group (Lazy Any), Lit fence])
                       response of
                  Some (g # _) \<Rightarrow> Inr \<lparr>code = strip g, language = lang, raw_response = response\<rparr>
                | _ \<Rightarrow> Inr \<lparr>code = strip response, language = lang, raw_response = response\<rparr>)))"

section \<open>Collaborators: the LLM service and the sandbox\<close>

text \<open>
  The LLM service and the Daytona SDK are outside the program. A \<open>world\<close> fixes how
  they answer: whether the \<open>n\<close>-th call made to them raises, and what it returns
  otherwise. Every call issued is recorded, in order, in the field \<open>effects\<close> of the
  state, so the number of a call is the length of that record when it is made.
\<close>

record proc_result =
  p_result :: string
  p_stderr :: string
  p_exit_code :: int

record preview =
  url :: string
  token :: "string option"

type_synonym message = "string \<times> string"

record world =
  raises :: "nat \<Rightarrow> string option"
  completion :: "nat \<Rightarrow> string"
  stream :: "nat \<Rightarrow> string list \<times> string option"
  process :: "nat \<Rightarrow> proc_result"
  preview_link :: "nat \<Rightarrow> preview"
  b64encode :: "string \<Rightarrow> string"

datatype effect =
    Chat "message list"
  | Stream "message list"
  | Create
  | Fs_upload string string
  | Exec string
  | Preview_link nat
  | Sleep nat

record exec_result =
  error :: "string option"
  stdout :: string
  stderr :: string
  exit_code :: int

datatype turn =
    Generate string string string
  | Execute string string exec_result
  | Generate_web string "string list" "string option"

datatype event =
    Token string
  | Code string string
  | Preview_event string "string option"
  | Complete "string list"
  | Error_event exn
  | Model_changed string

text \<open>\<open>SandboxManager\<close>: \<open>remote\<close> tells whether its \<open>self.sandbox\<close> is set.\<close>

datatype sandbox_manager = Sandbox_manager (remote: bool)

text \<open>
  The state of one session: the fields of its \<open>WebCodeAgent\<close> (\<open>history\<close>, \<open>sandbox\<close>,
  \<open>project_files\<close>, \<open>server_running\<close>), the preview fields of the \<open>Session\<close>, and what
  the session has done to the outside: the calls issued (\<open>effects\<close>), the files written
  into the sandbox by path (\<open>sandbox_files\<close>) and the events handed to the client
  (\<open>emitted\<close>).
\<close>

record state =
  history :: "turn list"
  sandbox :: "sandbox_manager option"
  project_files :: files
  server_running :: bool
  preview_url :: "string option"
  preview_token :: "string option"
  effects :: "effect list"
  sandbox_files :: files
  emitted :: "event list"

definition init :: state where
  "init = \<lparr>history = [], sandbox = None, project_files = [], server_running = False,
            preview_url = None, preview_token = None, effects = [], sandbox_files = [],
            emitted = []\<rparr>"

text \<open>A computation either raises or returns, and leaves a state.\<close>

type_synonym 'a io = "state \<Rightarrow> (exn + 'a) \<times> state"

definition ret :: "'a \<Rightarrow> 'a io" where
  "ret a s = (Inr a, s)"

definition raise :: "exn \<Rightarrow> 'a io" where
  "raise e s = (Inl e, s)"

definition bind :: "'a io \<Rightarrow> ('a \<Rightarrow> 'b io) \<Rightarrow> 'b io" where
  "bind m f s = (case m s of (Inl e, s1) \<Rightarrow> (Inl e, s1) | (Inr a, s1) \<Rightarrow> f a s1)"

definition lift :: "exn + 'a \<Rightarrow> 'a io" where
  "lift r s = (r, s)"

text \<open>Reading a field of the state.\<close>

definition get :: "(state \<Rightarrow> 'a) \<Rightarrow> 'a io" where
  "get fld s = (Inr (fld s), s)"

text \<open>\<open>try: m except Exception as e: h e\<close>\<close>

definition try_except :: "'a io \<Rightarrow> (exn \<Rightarrow> 'a io) \<Rightarrow> 'a io" where
  "try_except m h s = (case m s of (Inl e, s1) \<Rightarrow> h e s1 | (Inr a, s1) \<Rightarrow> (Inr a, s1))"

text \<open>One call to a collaborator: it is recorded, and it raises or returns its number.\<close>

definition call :: "world \<Rightarrow> effect \<Rightarrow> nat io" where
  "call w eff s =
     (let n = length (effects s); s1 = s\<lparr>effects := effects s @ [eff]\<rparr>
      in case raises w n of Some m \<Rightarrow> (Inl (Failure m), s1) | None \<Rightarrow> (Inr n, s1))"

section \<open>\<open>SandboxManager\<close> (sandbox.py)\<close>

definition has_remote :: "state \<Rightarrow> bool" where
  "has_remote s = (case sandbox s of Some m \<Rightarrow> remote m | None \<Rightarrow> False)"

definition create_sandbox :: "world \<Rightarrow> unit io" where
  "create_sandbox w =
     bind (call w Create) (\<lambda>_ s. (Inr (), s\<lparr>sandbox := Some (Sandbox_manager True)\<rparr>))"

text \<open>\<open>if not self.sandbox: self.create_sandbox()\<close>\<close>

definition need_remote :: "world \<Rightarrow> unit io" where
  "need_remote w s = (if has_remote s then ret () s else create_sandbox w s)"

definition write_file :: "string \<Rightarrow> string \<Rightarrow> unit io" where
  "write_file path content s =
     (Inr (), s\<lparr>sandbox_files := AList.update path content (sandbox_files s)\<rparr>)"

definition exec_result_of :: "proc_result \<Rightarrow> exec_result" where
  "exec_result_of r =
     \<lparr>error = None, stdout = p_result r, stderr = p_stderr r, exit_code = p_exit_code r\<rparr>"

definition execute_code :: "world \<Rightarrow> string \<Rightarrow> string \<Rightarrow> exec_result io" where
  "execute_code w src lang =
     bind (need_remote w) (\<lambda>_.
       if lang = ''python'' then
         bind (call w (Fs_upload ''/tmp/script.py'' src)) (\<lambda>_.
         bind (write_file ''/tmp/script.py'' src) (\<lambda>_.
         bind (call w (Exec (''python3 '' @ ''/tmp/script.py''))) (\<lambda>n.
         ret (exec_result_of (process w n)))))
       else if lang = ''javascript'' then
         bind (call w (Fs_upload ''/tmp/script.js'' src)) (\<lambda>_.
         bind (write_file ''/tmp/script.js'' src) (\<lambda>_.
         bind (call w (Exec (''node '' @ ''/tmp/script.js''))) (\<lambda>n.
         ret (exec_result_of (process w n)))))
       else if lang = ''bash'' then
         bind (call w (Exec src)) (\<lambda>n. ret (exec_result_of (process w n)))
       else
         ret \<lparr>error = Some (''Unsupported language: '' @ lang), stdout = [], stderr = [],
              exit_code = 1\<rparr>)"

definition execute_command :: "world \<Rightarrow> string \<Rightarrow> exec_result io" where
  "execute_command w cmd =
     bind (need_remote w) (\<lambda>_.
     bind (call w (Exec cmd)) (\<lambda>n.
     ret \<lparr>error = None, stdout = p_result (process w n), stderr = [],
          exit_code = p_exit_code (process w n)\<rparr>))"

text \<open>\<open>"/".join(path.split("/")[:-1])\<close>: the path without its last component.\<close>

definition dir_path :: "string \<Rightarrow> string" where
  "dir_path path = rev (tl (dropWhile (\<lambda>c. c \<noteq> CHR ''/'') (rev path)))"

text \<open>
  \<open>upload_file\<close>: the SDK upload, and when that raises, the same file written by shell
  commands; an exception of those is not caught.
\<close>

definition upload_file :: "world \<Rightarrow> string \<Rightarrow> string \<Rightarrow> bool io" where
  "upload_file w path content =
     bind (need_remote w) (\<lambda>_.
     bind (try_except
             (bind (call w (Fs_upload path content)) (\<lambda>_. write_file path content))
             (\<lambda>e.
                bind (if dir_path path \<noteq> []
                      then bind (call w (Exec (''mkdir -p '' @ dir_path path))) (\<lambda>_. ret ())
                      else ret ()) (\<lambda>_.
                bind (call w (Exec (''echo '' @ [CHR 0x27] @ b64encode w content @ [CHR 0x27] @
                                    '' | base64 -d > '' @ path))) (\<lambda>_.
                write_file path content)))) (\<lambda>_.
     ret True))"

definition get_preview_url :: "world \<Rightarrow> nat \<Rightarrow> preview io" where
  "get_preview_url w port s =
     (if \<not> has_remote s then raise (Failure ''No sandbox created'') s
      else bind (call w (Preview_link port)) (\<lambda>n. ret (preview_link w n)) s)"

section \<open>\<open>KolosalClient\<close> (llm.py)\<close>

text \<open>
  \<open>chat\<close> without streaming returns the text of the completion. With streaming it
  returns the fragments whose content is not empty; the stream may break with an
  exception after them.
\<close>

definition chat :: "world \<Rightarrow> message list \<Rightarrow> string io" where
  "chat w messages = bind (call w (Chat messages)) (\<lambda>n. ret (completion w n))"

definition chat_stream :: "world \<Rightarrow> message list \<Rightarrow> (string list \<times> string option) io" where
  "chat_stream w messages =
     bind (call w (Stream messages)) (\<lambda>n.
       ret (filter (\<lambda>chunk. chunk \<noteq> []) (fst (stream w n)), snd (stream w n)))"

definition generate_code :: "world \<Rightarrow> string \<Rightarrow> string \<Rightarrow> extraction io" where
  "generate_code w prompt lang =
     (let system_prompt =
            ''You are an expert '' @ lang @
            '' programmer. Generate clean, working code based on the user's request.\<newline>'' @
            ''\<newline>'' @
            ''IMPORTANT RULES:\<newline>'' @
            ''1. Return ONLY the code, no explanations before or after\<newline>'' @
            ''2. Include necessary imports\<newline>'' @
            ''3. Make the code complete and executable\<newline>'' @
            ''4. Use proper error handling where appropriate\<newline>'' @
            ''5. If you need to show output, use print statements\<newline>'' @
            ''\<newline>'' @
            ''Wrap your code in triple backticks with the language identifier:\<newline>'' @
            ''```'' @ lang @ ''\<newline>'' @
            ''# your code here\<newline>'' @
            ''```''
      in bind (chat w [(''system'', system_prompt), (''user'', prompt)]) (\<lambda>response.
         lift (extract_code response lang)))"

definition analyze_error :: "world \<Rightarrow> string \<Rightarrow> string \<Rightarrow> string \<Rightarrow> extraction io" where
  "analyze_error w src err lang =
     bind (chat w
             [(''system'',
               ''You are a '' @ lang @
               '' debugging expert. Analyze the error and provide a corrected version of the code.\<newline>'' @
               ''\<newline>'' @
               ''Return ONLY the fixed code wrapped in triple backticks:\<newline>'' @
               ''```'' @ lang @ ''\<newline>'' @
               ''# fixed code here\<newline>'' @
               ''```''),
              (''user'',
               ''The following code produced an error:\<newline>'' @
               ''\<newline>'' @
               ''```'' @ lang @ ''\<newline>'' @
               src @ ''\<newline>'' @
               ''```\<newline>'' @
               ''\<newline>'' @
               ''Error:\<newline>'' @
               err @ ''\<newline>'' @
               ''\<newline>'' @
               ''Please fix the code.'')])
          (\<lambda>response. lift (extract_code response lang))"

section \<open>\<open>CodeAgent\<close> (agent.py)\<close>

definition MAX_RETRIES :: nat where
  "MAX_RETRIES = 3"

definition append_history :: "turn \<Rightarrow> unit io" where
  "append_history t s = (Inr (), s\<lparr>history := history s @ [t]\<rparr>)"

definition ensure_sandbox :: "world \<Rightarrow> unit io" where
  "ensure_sandbox w s =
     (if sandbox s = None
      then create_sandbox w (s\<lparr>sandbox := Some (Sandbox_manager False)\<rparr>)
      else ret () s)"

definition generate :: "world \<Rightarrow> string \<Rightarrow> string \<Rightarrow> extraction io" where
  "generate w prompt lang =
     bind (generate_code w prompt lang) (\<lambda>result.
     bind (append_history (Generate prompt (code result) lang)) (\<lambda>_.
     ret result))"

definition execute :: "world \<Rightarrow> string \<Rightarrow> string \<Rightarrow> exec_result io" where
  "execute w src lang =
     bind (ensure_sandbox w) (\<lambda>_.
     bind (execute_code w src lang) (\<lambda>result.
     bind (append_history (Execute src lang result)) (\<lambda>_.
     ret result)))"

record run_result =
  run_prompt :: string
  run_code :: string
  run_language :: string
  run_output :: string
  errors :: string
  run_exit_code :: int
  retries :: nat

text \<open>
  The loop \<open>while auto_fix and exec_result.get("stderr") and retries < self.MAX_RETRIES\<close>
  of \<open>run\<close>, from the current code, execution result and retry count.
\<close>

function fix_loop ::
  "world \<Rightarrow> string \<Rightarrow> bool \<Rightarrow> string \<Rightarrow> exec_result \<Rightarrow> nat \<Rightarrow> (string \<times> exec_result \<times> nat) io" where
  "fix_loop w lang auto_fix src res n s =
     (if auto_fix \<and> stderr res \<noteq> [] \<and> n < MAX_RETRIES then
        (case analyze_error w src (stderr res) lang s of
           (Inl e, s1) \<Rightarrow> (Inl e, s1)
         | (Inr fix_result, s1) \<Rightarrow>
             (case execute w (code fix_result) lang s1 of
                (Inl e, s2) \<Rightarrow> (Inl e, s2)
              | (Inr res2, s2) \<Rightarrow>
                  if stderr res2 = [] then (Inr (code fix_result, res2, Suc n), s2)
                  else fix_loop w lang auto_fix (code fix_result) res2 (Suc n) s2))
      else (Inr (src, res, n), s))"
  by pat_completeness auto
termination
  by (relation "measure (\<lambda>(w, lang, auto_fix, src, res, n, s). MAX_RETRIES - n)") auto

declare fix_loop.simps [simp del]

definition run :: "world \<Rightarrow> string \<Rightarrow> string \<Rightarrow> bool \<Rightarrow> run_result io" where
  "run w prompt lang auto_fix =
     bind (generate w prompt lang) (\<lambda>gen_result.
     bind (execute w (code gen_result) lang) (\<lambda>exec_result.
     bind (fix_loop w lang auto_fix (code gen_result) exec_result 0) (\<lambda>(src, res, n).
     ret \<lparr>run_prompt = prompt, run_code = src, run_language = lang, run_output = stdout res,
          errors = stderr res, run_exit_code = exit_code res, retries = n\<rparr>)))"

section \<open>\<open>WebCodeAgent\<close> (web/web_agent.py)\<close>

definition WORKSPACE_DIR :: string where
  "WORKSPACE_DIR = ''/home/daytona/project''"

definition WEB_SYSTEM_PROMPT :: string where
  "WEB_SYSTEM_PROMPT =
     ''You are an expert web developer building apps for users. You create complete, working web applications.\<newline>'' @
     ''\<newline>'' @
     ''HOW TO RESPOND:\<newline>'' @
     ''1. First, briefly explain what you're going to build (1-2 sentences)\<newline>'' @
     ''2. Then output the code files (these will be deployed automatically)\<newline>'' @
     ''3. Finally, describe what was created and how to use it\<newline>'' @
     ''\<newline>'' @
     ''CODING RULES:\<newline>'' @
     ''- Generate complete HTML, CSS, and JavaScript files\<newline>'' @
     ''- Use modern, responsive CSS (flexbox, grid)\<newline>'' @
     ''- Use Tailwind CSS via CDN for quick styling\<newline>'' @
     ''- Make designs visually appealing with good colors and spacing\<newline>'' @
     ''- Ensure the app is fully functional\<newline>'' @
     ''\<newline>'' @
     ''FILE OUTPUT FORMAT (required for deployment):\<newline>'' @
     ''```index.html\<newline>'' @
     ''<!DOCTYPE html>\<newline>'' @
     ''<html>...</html>\<newline>'' @
     ''```\<newline>'' @
     ''\<newline>'' @
     ''```styles.css\<newline>'' @
     ''/* styles */\<newline>'' @
     ''```\<newline>'' @
     ''\<newline>'' @
     ''```script.js\<newline>'' @
     ''// code\<newline>'' @
     ''```\<newline>'' @
     ''\<newline>'' @
     ''RESPONSE STYLE:\<newline>'' @
     ''- Keep explanations brief and friendly\<newline>'' @
     ''- Don't explain the code in detail - users will see the live preview\<newline>'' @
     ''- Focus on what the app does, not how it's coded\<newline>'' @
     ''- Use bullet points for features''"

definition setup_workspace :: "world \<Rightarrow> unit io" where
  "setup_workspace w s =
     (if sandbox s \<noteq> None
      then bind (execute_command w (''mkdir -p '' @ WORKSPACE_DIR)) (\<lambda>_. ret ()) s
      else ret () s)"

text \<open>\<open>WebCodeAgent._ensure_sandbox\<close>, which overrides that of \<open>CodeAgent\<close>.\<close>

definition web_ensure_sandbox :: "world \<Rightarrow> unit io" where
  "web_ensure_sandbox w = bind (ensure_sandbox w) (\<lambda>_. setup_workspace w)"

text \<open>\<open>", ".join(names)\<close>\<close>

fun join :: "string \<Rightarrow> string list \<Rightarrow> string" where
  "join sep [] = []"
| "join sep [x] = x"
| "join sep (x # y # ys) = x @ sep @ join sep (y # ys)"

text \<open>The messages built from the last three turns of the history.\<close>

definition history_context :: "string \<Rightarrow> turn list \<Rightarrow> message list" where
  "history_context intro h =
     concat (map (\<lambda>item. case item of
                      Generate_web prompt names _ \<Rightarrow>
                        [(''user'', prompt), (''assistant'', intro @ join '', '' names)]
                    | _ \<Rightarrow> [])
                 (drop (length h - 3) h))"

definition web_messages :: "string \<Rightarrow> turn list \<Rightarrow> string \<Rightarrow> message list" where
  "web_messages intro h prompt =
     [(''system'', WEB_SYSTEM_PROMPT)] @ history_context intro h @ [(''user'', prompt)]"

definition workspace_path :: "string \<Rightarrow> string" where
  "workspace_path filename = WORKSPACE_DIR @ ''/'' @ filename"

definition set_project_file :: "string \<Rightarrow> string \<Rightarrow> unit io" where
  "set_project_file filename content s =
     (Inr (), s\<lparr>project_files := AList.update filename content (project_files s)\<rparr>)"

definition emit :: "event \<Rightarrow> unit io" where
  "emit ev s = (Inr (), s\<lparr>emitted := emitted s @ [ev]\<rparr>)"

text \<open>The loop \<open>for filename, content in files.items()\<close> of \<open>generate_web_code\<close>.\<close>

fun upload_all :: "world \<Rightarrow> files \<Rightarrow> unit io" where
  "upload_all w [] = ret ()"
| "upload_all w ((filename, content) # rest) =
     bind (upload_file w (workspace_path filename) content) (\<lambda>_.
     bind (set_project_file filename content) (\<lambda>_.
     upload_all w rest))"

record web_result =
  message :: string
  result_files :: files
  primary_code :: string

definition generate_web_code :: "world \<Rightarrow> string \<Rightarrow> web_result io" where
  "generate_web_code w prompt =
     bind (get history) (\<lambda>h.
     bind (chat w (web_messages ''I created the following files: '' h prompt)) (\<lambda>response.
       let fs = parse_web_files response in
       bind (web_ensure_sandbox w) (\<lambda>_.
       bind (upload_all w fs) (\<lambda>_.
       bind (append_history (Generate_web prompt (map fst fs) (Some response))) (\<lambda>_.
       ret \<lparr>message = ''Code generated successfully'', result_files = fs,
            primary_code = (case map_of fs ''index.html'' of Some c \<Rightarrow> c | None \<Rightarrow> [])\<rparr>)))))"

text \<open>
  \<open>stream_generate\<close> is a generator; its consumer takes each event as it is yielded, and
  \<open>emit\<close> stands for both. The loop over the files yields one \<open>code\<close> event per file.
\<close>

fun emit_tokens :: "string list \<Rightarrow> unit io" where
  "emit_tokens [] = ret ()"
| "emit_tokens (chunk # chunks) = bind (emit (Token chunk)) (\<lambda>_. emit_tokens chunks)"

fun upload_all_emit :: "world \<Rightarrow> files \<Rightarrow> unit io" where
  "upload_all_emit w [] = ret ()"
| "upload_all_emit w ((filename, content) # rest) =
     bind (upload_file w (workspace_path filename) content) (\<lambda>_.
     bind (set_project_file filename content) (\<lambda>_.
     bind (emit (Code filename content)) (\<lambda>_.
     upload_all_emit w rest)))"

definition stream_generate :: "world \<Rightarrow> string \<Rightarrow> unit io" where
  "stream_generate w prompt =
     bind (get history) (\<lambda>h.
     bind (chat_stream w (web_messages ''I created these files: '' h prompt)) (\<lambda>(chunks, broken).
       bind (emit_tokens chunks) (\<lambda>_.
       case broken of
         Some m \<Rightarrow> raise (Failure m)
       | None \<Rightarrow>
           let fs = parse_web_files (concat chunks) in
           bind (web_ensure_sandbox w) (\<lambda>_.
           bind (upload_all_emit w fs) (\<lambda>_.
           append_history (Generate_web prompt (map fst fs) None))))))"

definition kill_command :: string where
  "kill_command = ''pkill -f 'python3 -m http.server' 2>/dev/null || true''"

definition start_command :: string where
  "start_command =
     ''cd '' @ WORKSPACE_DIR @ '' && nohup python3 -m http.server 8000 > /dev/null 2>&1 &''"

definition start_preview_server :: "world \<Rightarrow> unit io" where
  "start_preview_server w s =
     (if server_running s then ret () s
      else if sandbox s = None then ret () s
      else
        bind (execute_command w kill_command) (\<lambda>_.
        bind (execute_command w start_command) (\<lambda>_.
        bind (call w (Sleep 1)) (\<lambda>_ s1.
        (Inr (), s1\<lparr>server_running := True\<rparr>)))) s)"

definition get_project_files :: "state \<Rightarrow> string list" where
  "get_project_files s = map fst (project_files s)"

definition get_file_content :: "state \<Rightarrow> string \<Rightarrow> string option" where
  "get_file_content s filename = map_of (project_files s) filename"

definition update_file :: "world \<Rightarrow> string \<Rightarrow> string \<Rightarrow> unit io" where
  "update_file w filename content s =
     (if sandbox s = None then ret () s
      else
        bind (upload_file w (workspace_path filename) content) (\<lambda>_.
        set_project_file filename content) s)"

section \<open>\<open>Session\<close> (sessions/manager.py) and the websocket endpoint (api/websocket.py)\<close>

definition session_get_preview_url :: "world \<Rightarrow> preview option io" where
  "session_get_preview_url w s =
     (if has_remote s then
        bind (get_preview_url w 8000) (\<lambda>p s1.
          (Inr (Some p), s1\<lparr>preview_url := Some (url p), preview_token := token p\<rparr>)) s
      else ret None s)"

definition deploy_and_preview :: "world \<Rightarrow> preview option io" where
  "deploy_and_preview w = bind (start_preview_server w) (\<lambda>_. session_get_preview_url w)"

definition list_files :: "state \<Rightarrow> string list" where
  "list_files s = get_project_files s"

text \<open>
  One \<open>chat\<close> message on the websocket: the body of the \<open>try\<close>, whose events go to the
  client, and the handler \<open>except Exception as e\<close>, which sends the \<open>error\<close> event.
\<close>

definition chat_body :: "world \<Rightarrow> string \<Rightarrow> unit io" where
  "chat_body w prompt =
     bind (stream_generate w prompt) (\<lambda>_.
     bind (deploy_and_preview w) (\<lambda>p.
     bind (case p of Some pv \<Rightarrow> emit (Preview_event (url pv) (token pv)) | None \<Rightarrow> ret ()) (\<lambda>_.
     bind (get list_files) (\<lambda>names.
     emit (Complete names)))))"

definition chat_turn :: "world \<Rightarrow> string \<Rightarrow> unit io" where
  "chat_turn w prompt = try_except (chat_body w prompt) (\<lambda>e. emit (Error_event e))"

text \<open>The REST endpoint \<open>POST /chat\<close> (api/routes.py): batch generation, then deploy.\<close>

definition chat_endpoint :: "world \<Rightarrow> string \<Rightarrow> web_result io" where
  "chat_endpoint w prompt =
     bind (generate_web_code w prompt) (\<lambda>result.
     bind (deploy_and_preview w) (\<lambda>_. ret result))"

section \<open>Properties of computations, and the actions of a session\<close>

text \<open>
  \<open>keeps fld m\<close>: the computation leaves the field as it is, whether it returns or raises.
  \<open>preserves I m\<close>: it keeps the invariant. \<open>writes p c m\<close>: it writes the file \<open>p\<close> with
  content \<open>c\<close> into the sandbox when it returns, nothing when it raises, and leaves the
  history, the file store and the events alone. \<open>consistent\<close>: the file store holds under
  each name what the sandbox holds at its workspace path.
\<close>

definition keeps :: "(state \<Rightarrow> 'x) \<Rightarrow> 'a io \<Rightarrow> bool" where
  "keeps fld m \<longleftrightarrow> (\<forall>s r s1. m s = (r, s1) \<longrightarrow> fld s1 = fld s)"

definition preserves :: "(state \<Rightarrow> bool) \<Rightarrow> 'a io \<Rightarrow> bool" where
  "preserves I m \<longleftrightarrow> (\<forall>s r s1. I s \<longrightarrow> m s = (r, s1) \<longrightarrow> I s1)"

definition inner :: "state \<Rightarrow> turn list \<times> files \<times> files \<times> event list" where
  "inner s = (history s, project_files s, sandbox_files s, emitted s)"

definition consistent :: "state \<Rightarrow> bool" where
  "consistent s \<longleftrightarrow> (\<forall>f. map_of (project_files s) f = map_of (sandbox_files s) (workspace_path f))"

definition writes :: "string \<Rightarrow> string \<Rightarrow> 'a io \<Rightarrow> bool" where
  "writes p c m \<longleftrightarrow>
     (\<forall>s r s1. m s = (r, s1) \<longrightarrow>
        history s1 = history s \<and> project_files s1 = project_files s \<and> emitted s1 = emitted s \<and>
        sandbox_files s1 =
          (case r of Inr _ \<Rightarrow> AList.update p c (sandbox_files s) | Inl _ \<Rightarrow> sandbox_files s))"

text \<open>
  \<open>progress\<close>: the events of a turn that are neither \<open>complete\<close> nor \<open>error\<close>.
  \<open>emits P m\<close>: the computation adds events that satisfy \<open>P\<close>, and no others.
  \<open>records t m\<close>: it appends the turn \<open>t\<close> to the history when it returns and leaves the
  history alone when it raises. \<open>streamed_response\<close> and \<open>batch_response\<close> are the texts the
  LLM gives to a call made in a state.
\<close>

definition progress :: "event \<Rightarrow> bool" where
  "progress ev = (case ev of Token _ \<Rightarrow> True | Code _ _ \<Rightarrow> True | Preview_event _ _ \<Rightarrow> True | _ \<Rightarrow> False)"

definition emits :: "(event \<Rightarrow> bool) \<Rightarrow> 'a io \<Rightarrow> bool" where
  "emits P m \<longleftrightarrow> (\<forall>s r s1. m s = (r, s1) \<longrightarrow> (\<exists>evs. emitted s1 = emitted s @ evs \<and> list_all P evs))"

definition records :: "turn \<Rightarrow> 'a io \<Rightarrow> bool" where
  "records t m \<longleftrightarrow>
     (\<forall>s r s1. m s = (r, s1) \<longrightarrow>
        history s1 = (case r of Inr _ \<Rightarrow> history s @ [t] | Inl _ \<Rightarrow> history s))"

definition streamed_response :: "world \<Rightarrow> state \<Rightarrow> string" where
  "streamed_response w s =
     concat (filter (\<lambda>chunk. chunk \<noteq> []) (fst (stream w (length (effects s)))))"

definition batch_response :: "world \<Rightarrow> state \<Rightarrow> string" where
  "batch_response w s = completion w (length (effects s))"

text \<open>
  \<open>backticks\<close> counts the backticks of a text and \<open>min_backticks\<close> bounds from below the
  backticks of any text a pattern matches. \<open>single_block pre tag body post\<close> is a response
  with one fenced block, tagged and followed by a newline, between two texts.
\<close>

definition backticks :: "string \<Rightarrow> nat" where
  "backticks s = length (filter (\<lambda>c. c = CHR ''`'') s)"

fun min_backticks :: "rx \<Rightarrow> nat" where
  "min_backticks (Lit t) = backticks t"
| "min_backticks (Star c) = 0"
| "min_backticks (Plus c) = 0"
| "min_backticks (Lazy c) = 0"
| "min_backticks (Opt r) = 0"
| "min_backticks (Group r) = min_backticks r"
| "min_backticks (Cat rs) = sum_list (map min_backticks rs)"
| "min_backticks (Alt rs) = 0"

definition single_block :: "string \<Rightarrow> string \<Rightarrow> string \<Rightarrow> string \<Rightarrow> string" where
  "single_block pre tag body post = pre @ fence @ tag @ newline @ body @ fence @ post"

definition no_backtick :: "string \<Rightarrow> bool" where
  "no_backtick s \<longleftrightarrow> CHR ''`'' \<notin> set s"



datatype action =
    Create_session
  | Generate_web_code string
  | Stream_generate string
  | Update_file string string
  | Deploy_and_preview
  | Chat_turn string
  | Chat_endpoint string
  | Run string string bool

fun perform :: "world \<Rightarrow> action \<Rightarrow> state \<Rightarrow> state" where
  "perform w Create_session s = snd (web_ensure_sandbox w s)"
| "perform w (Generate_web_code prompt) s = snd (generate_web_code w prompt s)"
| "perform w (Stream_generate prompt) s = snd (stream_generate w prompt s)"
| "perform w (Update_file filename content) s = snd (update_file w filename content s)"
| "perform w Deploy_and_preview s = snd (deploy_and_preview w s)"
| "perform w (Chat_turn prompt) s = snd (chat_turn w prompt s)"
| "perform w (Chat_endpoint prompt) s = snd (chat_endpoint w prompt s)"
| "perform w (Run prompt lang auto_fix) s = snd (run w prompt lang auto_fix s)"

fun after :: "world \<Rightarrow> state \<Rightarrow> action list \<Rightarrow> state" where
  "after w s [] = s"
| "after w s (a # as) = after w (perform w a s) as"

section \<open>Sample worlds and states\<close>

text \<open>
  A world in which no call raises, every process writes to its standard error, and the
  LLM answers with one fenced block; and a session whose sandbox has been created, as
  \<open>SessionManager.create_session\<close> leaves it.
\<close>

definition calm :: world where
  "calm = \<lparr>raises = (\<lambda>_. None),
           completion = (\<lambda>_. ''```python\<newline>x\<newline>```''),
           stream = (\<lambda>_. ([''```index.html\<newline><p>'', [], ''</p>```''], None)),
           process = (\<lambda>_. \<lparr>p_result = ''out'', p_stderr = ''boom'', p_exit_code = 1\<rparr>),
           preview_link = (\<lambda>_. \<lparr>url = ''u'', token = Some ''t''\<rparr>),
           b64encode = (\<lambda>x. x)\<rparr>"

definition ready :: state where
  "ready = init\<lparr>sandbox := Some (Sandbox_manager True)\<rparr>"

text \<open>
  Two worlds with one failure each: the fourth call to a collaborator raises (for a
  session with a sandbox, the command that kills a stale server, during deployment); the
  token stream breaks after its first fragment.
\<close>

definition broken_deploy :: world where
  "broken_deploy = calm\<lparr>raises := (\<lambda>n. if n = 3 then Some ''boom'' else None)\<rparr>"

definition broken_stream :: world where
  "broken_stream = calm\<lparr>stream := (\<lambda>_. ([''<p>''], Some ''connection lost''))\<rparr>"

section \<open>What a match of a pattern consumes\<close>

lemma lower_backtick: "lower c = CHR ''`'' \<longleftrightarrow> c = CHR ''`''"
proof (cases "65 \<le> (of_char c :: nat) \<and> (of_char c :: nat) \<le> 90")
  case False
  then show ?thesis by (auto simp: lower_def Let_def)
next
  case True
  then have "(of_char (lower c) :: nat) = of_char c + 32"
    by (simp add: lower_def Let_def)
  with True have "(of_char (lower c) :: nat) \<noteq> 96" "(of_char c :: nat) \<noteq> 96" by simp_all
  then show ?thesis by auto
qed

lemma backticks_lower: "backticks (map lower s) = backticks s"
  by (induction s) (auto simp: backticks_def lower_backtick)

lemma backticks_append: "backticks (u @ v) = backticks u + backticks v"
  by (simp add: backticks_def)

lemma backticks_same_text: "same_text ic t u \<Longrightarrow> backticks u = backticks t"
  by (cases ic) (auto simp: same_text_def dest: arg_cong [where f = backticks] simp: backticks_lower)

lemma backticks_prefix: "prefix u s \<Longrightarrow> backticks u \<le> backticks s"
  by (auto simp: prefix_def backticks_append)

lemma runs_prefix: "u \<in> set (runs p s) \<Longrightarrow> prefix u s"
  by (induction s arbitrary: u) (auto split: if_splits)

lemma runs_nonempty: "runs p s \<noteq> []"
  by (cases s) simp_all

lemma rmatch_sound:
  "(u, g) \<in> set (rmatch ic r s) \<Longrightarrow> prefix u s \<and> min_backticks r \<le> backticks u"
proof (induction ic r s arbitrary: u g rule: rmatch.induct)
  case (1 ic t s)
  then show ?case
    by (auto simp: take_is_prefix backticks_same_text split: if_splits)
next
  case (2 ic c s)
  then show ?case by (auto simp: runs_prefix)
next
  case (3 ic c s)
  then have "u \<in> set (tl (runs (cls_ok c) s))" by auto
  then have "u \<in> set (runs (cls_ok c) s)" using runs_nonempty [of "cls_ok c" s]
    by (meson list.set_sel(2))
  then show ?case by (simp add: runs_prefix)
next
  case (4 ic c s)
  then show ?case by (auto simp: runs_prefix)
next
  case (5 ic r s)
  then show ?case by auto
next
  case (6 ic r s)
  then show ?case by auto
next
  case (7 ic s)
  then show ?case by (simp add: backticks_def)
next
  case (8 ic r rs s)
  from "8.prems" obtain u1 g1 u2 g2 where
    first: "(u1, g1) \<in> set (rmatch ic r s)"
    and rest: "(u2, g2) \<in> set (rmatch ic (Cat rs) (drop (length u1) s))"
    and u: "u = u1 @ u2"
    by auto
  from "8.IH"(1) [OF first] have p1: "prefix u1 s" "min_backticks r \<le> backticks u1" by simp_all
  from "8.IH"(2) [OF first refl rest]
  have p2: "prefix u2 (drop (length u1) s)" "min_backticks (Cat rs) \<le> backticks u2" by simp_all
  from p1(1) p2(1) have "prefix (u1 @ u2) s"
    by (auto simp: prefix_def)
  with p1(2) p2(2) u show ?case by (simp add: backticks_append)
next
  case (9 ic s)
  then show ?case by simp
next
  case (10 ic r rs s)
  then show ?case by (auto simp: prefix_def) 
qed


lemma rmatch_few_backticks:
  assumes "backticks s < min_backticks r"
  shows "rmatch ic r s = []"
proof (rule ccontr)
  assume "rmatch ic r s \<noteq> []"
  then obtain u g where "(u, g) \<in> set (rmatch ic r s)"
    by (cases "rmatch ic r s") auto
  from rmatch_sound [OF this] backticks_prefix [of u s] assms show False
    by simp
qed

lemma backticks_tl: "backticks (tl s) \<le> backticks s"
  by (cases s) (simp_all add: backticks_def)

lemma backticks_drop: "backticks (drop n s) \<le> backticks s"
  by (metis append_take_drop_id backticks_append le_add2)

lemma search_few_backticks:
  "backticks s < min_backticks r \<Longrightarrow> search ic r s = None"
proof (induction s)
  case Nil
  then show ?case by (simp add: rmatch_few_backticks)
next
  case (Cons x xs)
  from Cons.prems backticks_tl [of "x # xs"] have "backticks xs < min_backticks r" by simp
  with Cons show ?case by (simp add: rmatch_few_backticks)
qed

lemma findall_few_backticks:
  "backticks s < min_backticks r \<Longrightarrow> findall ic r s = []"
proof (induction s)
  case Nil
  then show ?case by (subst findall.simps) (simp add: rmatch_few_backticks)
next
  case (Cons x xs)
  from Cons.prems backticks_tl [of "x # xs"] have "backticks xs < min_backticks r" by simp
  with Cons show ?case by (subst findall.simps) (simp add: rmatch_few_backticks)
qed

text \<open>A pattern that begins with the fence matches only where the text does.\<close>

lemma same_text_fence:
  assumes "same_text ic (fence @ t) u"
  shows "prefix fence u"
proof (cases ic)
  case False
  with assms show ?thesis by (auto simp: same_text_def)
next
  case True
  with assms have eq: "map lower u = map lower (fence @ t)" by (simp add: same_text_def)
  then obtain a b c v where u: "u = a # b # c # v"
    by (cases u; cases "tl u"; cases "tl (tl u)") (auto simp: fence_def)
  with eq have "lower a = CHR ''`''" "lower b = CHR ''`''" "lower c = CHR ''`''"
    by (simp_all add: fence_def lower_def Let_def)
  with u show ?thesis by (simp add: lower_backtick fence_def)
qed

lemma rmatch_needs_fence:
  assumes "rmatch ic (Cat (Lit (fence @ t) # rs)) s \<noteq> []"
  shows "prefix fence s"
proof -
  from assms have "rmatch ic (Lit (fence @ t)) s \<noteq> []" by auto
  then have "same_text ic (fence @ t) (take (length (fence @ t)) s)"
    by (simp split: if_splits)
  from same_text_fence [OF this] show ?thesis
    by (meson prefix_order.trans take_is_prefix)
qed

lemma rmatch_no_backtick_first:
  "c \<noteq> CHR ''`'' \<Longrightarrow> rmatch ic (Cat (Lit (fence @ t) # rs)) (c # s) = []"
  using rmatch_needs_fence [of ic t rs "c # s"] by (auto simp: fence_def)

lemma search_skip:
  "CHR ''`'' \<notin> set pre \<Longrightarrow>
   search ic (Cat (Lit (fence @ t) # rs)) (pre @ s) = search ic (Cat (Lit (fence @ t) # rs)) s"
proof (induction pre)
  case Nil
  show ?case by simp
next
  case (Cons c pre)
  then have "c \<noteq> CHR ''`''" by auto
  from rmatch_no_backtick_first [OF this, of ic t rs "pre @ s"] Cons show ?case
    by (simp del: rmatch.simps)
qed

lemma findall_skip:
  "CHR ''`'' \<notin> set pre \<Longrightarrow>
   findall ic (Cat (Lit (fence @ t) # rs)) (pre @ s) = findall ic (Cat (Lit (fence @ t) # rs)) s"
proof (induction pre)
  case Nil
  show ?case by simp
next
  case (Cons c pre)
  then have "c \<noteq> CHR ''`''" by auto
  from rmatch_no_backtick_first [OF this, of ic t rs "pre @ s"] Cons show ?case
    by (subst findall.simps) (simp del: rmatch.simps)
qed

lemma search_no_fence:
  "\<not> contains fence s \<Longrightarrow> search ic (Cat (Lit (fence @ t) # rs)) s = None"
proof (induction s)
  case Nil
  from rmatch_needs_fence [of ic t rs "[]"] show ?case
    by (cases "rmatch ic (Cat (Lit (fence @ t) # rs)) []") (auto simp: fence_def)
next
  case (Cons x xs)
  from Cons.prems have np: "\<not> prefix fence (x # xs)" and nc: "\<not> contains fence xs" by simp_all
  from np rmatch_needs_fence [of ic t rs "x # xs"]
  have "rmatch ic (Cat (Lit (fence @ t) # rs)) (x # xs) = []" by blast
  with Cons.IH [OF nc] show ?case by (simp del: rmatch.simps)
qed

lemma findall_no_fence:
  "\<not> contains fence s \<Longrightarrow> findall ic (Cat (Lit (fence @ t) # rs)) s = []"
proof (induction s)
  case Nil
  from rmatch_needs_fence [of ic t rs "[]"]
  have "rmatch ic (Cat (Lit (fence @ t) # rs)) [] = []"
    by (cases "rmatch ic (Cat (Lit (fence @ t) # rs)) []") (auto simp: fence_def)
  then show ?case by (subst findall.simps) (simp del: rmatch.simps)
next
  case (Cons x xs)
  from Cons.prems have np: "\<not> prefix fence (x # xs)" and nc: "\<not> contains fence xs" by simp_all
  from np rmatch_needs_fence [of ic t rs "x # xs"]
  have "rmatch ic (Cat (Lit (fence @ t) # rs)) (x # xs) = []" by blast
  with Cons.IH [OF nc] show ?case by (subst findall.simps) (simp del: rmatch.simps)
qed


section \<open>Single-file extraction is total for plain languages\<close>






section \<open>The resolver never returns an empty mapping\<close>

lemma contains_find: "contains t s \<Longrightarrow> find t s \<noteq> None"
  by (induction s) (auto split: option.splits)

lemma ultimate_fallback_nonempty: "ultimate_fallback response fs \<noteq> []"
  using contains_find [of "''<!DOCTYPE''" response] contains_find [of "''<html''" response]
  by (auto simp: ultimate_fallback_def Let_def split: option.splits)

lemma fallbacks_give_index:
  "has_key (ultimate_fallback response (generic_fallback response [])) ''index.html''"
proof (cases "generic_fallback response [] = []")
  case True
  then show ?thesis
    using contains_find [of "''<!DOCTYPE''" response] contains_find [of "''<html''" response]
    by (auto simp: ultimate_fallback_def has_key_def Let_def split: option.splits)
next
  case False
  then have "has_key (generic_fallback response []) ''index.html''"
    by (auto simp: generic_fallback_def has_key_def Let_def split: list.splits if_splits)
  with False show ?thesis by (simp add: ultimate_fallback_def)
qed

lemma first_match_no_fence:
  assumes "\<not> contains fence response"
  shows "first_match html_patterns response = None"
    and "first_match css_patterns response = None"
    and "first_match js_patterns response = None"
  using search_no_fence [OF assms, of False]
  by (simp_all add: html_patterns_def css_patterns_def js_patterns_def tag_pattern_def
        del: search.simps)

lemma resolved_no_fence:
  assumes "\<not> contains fence response"
  shows "tagged_files response (explicit_files response) = []"
proof -
  have "findall True pattern1 response = []"
    unfolding pattern1_def using findall_no_fence [OF assms, of True "[]"] by simp
  then have "explicit_files response = []"
    by (simp add: explicit_files_def)
  with first_match_no_fence [OF assms] show ?thesis
    by (simp add: tagged_files_def has_key_def)
qed

text \<open>
  C1, as amended. For every input the mapping returned by \<open>_parse_web_files\<close> is not
  empty. It has the key \<open>index.html\<close> whenever neither a block with an explicit file name
  nor a block with a listed language tag was found, and so for every text without a
  fence: the empty string, whitespace, plain prose.
\<close>

theorem resolver_total:
  "parse_web_files response \<noteq> [] \<and>
   (tagged_files response (explicit_files response) = [] \<longrightarrow>
      has_key (parse_web_files response) ''index.html'') \<and>
   (\<not> contains fence response \<longrightarrow> has_key (parse_web_files response) ''index.html'')"
proof (intro conjI impI)
  show "parse_web_files response \<noteq> []"
    by (simp add: parse_web_files_def ultimate_fallback_nonempty)
  show "has_key (parse_web_files response) ''index.html''"
    if "tagged_files response (explicit_files response) = []"
    using that fallbacks_give_index [of response] by (simp add: parse_web_files_def)
  then show "has_key (parse_web_files response) ''index.html''" if "\<not> contains fence response"
    using resolved_no_fence [OF that] by simp
qed

theorem resolver_total_witness:
  "\<not> contains fence ''   '' \<and> parse_web_files ''   '' \<noteq> [] \<and>
   has_key (parse_web_files ''   '') ''index.html''"
proof -
  have nf: "\<not> contains fence ''   ''"
    by (simp add: fence_def)
  with resolver_total [of "''   ''"] show ?thesis by blast
qed

text \<open>
  A response whose only block is labelled \<open>styles.css\<close> resolves to that file alone: the
  fallbacks that produce \<open>index.html\<close> run only on an empty mapping.
\<close>

lemma styles_only:
  "parse_web_files ''```styles.css\<newline>body{}\<newline>```'' = [(''styles.css'', ''body{}'')]"
  by code_simp

theorem resolver_without_index_counterexample:
  "parse_web_files ''```styles.css\<newline>body{}\<newline>```'' = [(''styles.css'', ''body{}'')] \<and>
   \<not> has_key (parse_web_files ''```styles.css\<newline>body{}\<newline>```'') ''index.html''"
  unfolding styles_only by (simp add: has_key_def)

section \<open>A response with one fenced block\<close>

lemma star_cons:
  assumes "cls_ok c x"
  shows "rmatch ic (Cat (Star c # rs)) (x # xs) =
           map (\<lambda>(u, g). (x # u, g)) (rmatch ic (Cat (Star c # rs)) xs) @
           rmatch ic (Cat rs) (x # xs)"
  using assms
  by (simp add: map_concat comp_def rev_map case_prod_unfold)

lemma star_stop:
  assumes "\<not> cls_ok c x"
  shows "rmatch ic (Cat (Star c # rs)) (x # xs) = rmatch ic (Cat rs) (x # xs)"
  using assms by (simp add: case_prod_unfold)

lemma lit_match:
  "rmatch False (Lit t) s = (if prefix t s then [(t, [])] else [])"
proof (cases "prefix t s")
  case True
  then obtain r where "s = t @ r" by (auto simp: prefix_def)
  then show ?thesis by (simp add: same_text_def)
next
  case False
  have "t \<noteq> take (length t) s"
  proof
    assume "t = take (length t) s"
    then have "prefix t s" by (metis take_is_prefix)
    with False show False ..
  qed
  with False show ?thesis by (simp add: same_text_def)
qed

lemma cls_ok_Any: "cls_ok Any = (\<lambda>_. True)"
  by (rule ext) simp

lemma lazy_fence_form:
  "rmatch False (Cat [Group (Lazy Any), Lit fence]) s =
     concat (map (\<lambda>u. if prefix fence (drop (length u) s) then [(u @ fence, [u])] else [])
                 (runs (\<lambda>_. True) s))"
proof -
  have "rmatch False (Cat [Group (Lazy Any), Lit fence]) s =
      concat (map (\<lambda>(u, g). map (\<lambda>(v, h). (u @ v, g @ h))
                                  (concat (map (\<lambda>(u, g). map (\<lambda>(v, h). (u @ v, g @ h))
                                                 (rmatch False (Cat []) (drop (length u) (drop (length u) s))))
                                     (rmatch False (Lit fence) (drop (length u) s)))))
                  (map (\<lambda>(u, g). (u, u # g)) (map (\<lambda>u. (u, [])) (runs (\<lambda>_. True) s))))"
    by (simp only: rmatch.simps cls_ok_Any)
  also have "\<dots> = concat (map (\<lambda>u. if prefix fence (drop (length u) s) then [(u @ fence, [u])] else [])
                 (runs (\<lambda>_. True) s))"
    unfolding lit_match
    by (rule arg_cong [where f = concat]) (simp add: comp_def)
  finally show ?thesis .
qed

lemma fence_prefix_cons: "prefix fence (x # xs) \<Longrightarrow> x = CHR ''`''"
  by (simp add: fence_def)

lemma lazy_fence_cons:
  "rmatch False (Cat [Group (Lazy Any), Lit fence]) (x # xs) =
     (if prefix fence (x # xs) then [(fence, [[]])] else []) @
     map (\<lambda>(u, g). (x # u, map ((#) x) g)) (rmatch False (Cat [Group (Lazy Any), Lit fence]) xs)"
  unfolding lazy_fence_form
  by (simp add: map_concat comp_def if_distrib cong: if_cong)

lemma lazy_fence_first:
  assumes "CHR ''`'' \<notin> set b"
  shows "\<exists>ms. rmatch False (Cat [Group (Lazy Any), Lit fence]) (b @ fence @ post) =
               (b @ fence, [b]) # ms"
  using assms
proof (induction b)
  case Nil
  obtain x xs where s: "fence @ post = x # xs"
    by (cases "fence @ post") (simp_all add: fence_def)
  have "prefix fence (fence @ post)" by simp
  with s show ?case
    by (simp add: lazy_fence_cons del: rmatch.simps)
next
  case (Cons x b)
  then have x: "x \<noteq> CHR ''`''" and "CHR ''`'' \<notin> set b" by auto
  from Cons.IH [OF this(2)] obtain ms where
    "rmatch False (Cat [Group (Lazy Any), Lit fence]) (b @ fence @ post) = (b @ fence, [b]) # ms"
    by blast
  moreover from x fence_prefix_cons [of x "b @ fence @ post"]
  have "\<not> prefix fence (x # b @ fence @ post)" by blast
  ultimately show ?case
    by (simp add: lazy_fence_cons del: rmatch.simps)
qed

lemma newline_then:
  "rmatch False (Cat (Lit newline # rs)) (x # xs) =
     (if x = CHR ''\<newline>'' then map (\<lambda>(u, g). (x # u, g)) (rmatch False (Cat rs) xs) else [])"
  by (auto simp: same_text_def newline_def case_prod_unfold)

lemma newline_then_nil: "rmatch False (Cat (Lit newline # rs)) [] = []"
  by (simp add: newline_def)


lemma strip_spaces: "list_all isspace W \<Longrightarrow> strip (W @ s) = strip s"
  by (simp add: strip_def list_all_iff)

lemma block_tail_ws:
  assumes "list_all isspace W" and "CHR ''`'' \<notin> set b" and "b = [] \<or> \<not> isspace (hd b)"
  shows "if CHR ''\<newline>'' \<in> set W
         then \<exists>u g ms W2. rmatch False (Cat block_tail) (W @ b @ fence @ post) = (u, [g]) # ms \<and>
                g = W2 @ b \<and> list_all isspace W2
         else rmatch False (Cat block_tail) (W @ b @ fence @ post) = []"
  using assms(1)
proof (induction W)
  case Nil
  obtain x xs where s: "b @ fence @ post = x # xs" and x: "\<not> isspace x"
  proof (cases b)
    case Nil
    then have "b @ fence @ post = CHR ''`'' # (''``'' @ post)" by (simp add: fence_def)
    moreover have "\<not> isspace CHR ''`''" by (simp add: isspace_def)
    ultimately show ?thesis using that by blast
  next
    case (Cons y ys)
    with assms(3) have "\<not> isspace y" by simp
    with Cons that show ?thesis by simp
  qed
  have "x \<noteq> CHR ''\<newline>''" using x by (auto simp: isspace_def)
  with s x show ?case
    by (simp add: block_tail_def star_stop newline_then del: rmatch.simps)
next
  case (Cons x W)
  then have x: "isspace x" and W: "list_all isspace W" by simp_all
  let ?rest = "W @ b @ fence @ post"
  have unfold: "rmatch False (Cat block_tail) (x # ?rest) =
      map (\<lambda>(u, g). (x # u, g)) (rmatch False (Cat block_tail) ?rest) @
      rmatch False (Cat [Lit newline, Group (Lazy Any), Lit fence]) (x # ?rest)"
    using x by (simp add: block_tail_def star_cons del: rmatch.simps)
  show ?case
  proof (cases "CHR ''\<newline>'' \<in> set W")
    case True
    with Cons.IH [OF W] obtain u g ms W2 where
      "rmatch False (Cat block_tail) ?rest = (u, [g]) # ms" "g = W2 @ b" "list_all isspace W2"
      by auto
    with unfold True show ?thesis by (simp del: rmatch.simps)
  next
    case False
    with Cons.IH [OF W] have none: "rmatch False (Cat block_tail) ?rest = []" by simp
    show ?thesis
    proof (cases "x = CHR ''\<newline>''")
      case nl: True
      have "CHR ''`'' \<notin> set (W @ b)"
        using W assms(2) by (auto simp: list_all_iff isspace_def)
      from lazy_fence_first [OF this, of post] obtain ms where
        "rmatch False (Cat [Group (Lazy Any), Lit fence]) ?rest = ((W @ b) @ fence, [W @ b]) # ms"
        by auto
      with unfold none nl W show ?thesis
        by (simp add: newline_then del: rmatch.simps)
    next
      case nnl: False
      with unfold none False show ?thesis
        by (simp add: newline_then del: rmatch.simps)
    qed
  qed
qed

lemma block_tail_match:
  assumes "CHR ''`'' \<notin> set body"
  shows "\<exists>u g ms. rmatch False (Cat block_tail) (newline @ body @ fence @ post) = (u, [g]) # ms \<and>
           strip g = strip body"
proof -
  let ?W = "newline @ takeWhile isspace body"
  let ?b = "dropWhile isspace body"
  have W: "list_all isspace ?W"
    by (auto simp: list_all_iff newline_def isspace_def dest: set_takeWhileD)
  have b: "CHR ''`'' \<notin> set ?b"
    using assms by (auto dest: set_dropWhileD)
  have nb: "?b = [] \<or> \<not> isspace (hd ?b)"
    using hd_dropWhile [of isspace body] by blast
  have nl: "CHR ''\<newline>'' \<in> set ?W" by (simp add: newline_def)
  have whole: "?W @ ?b @ fence @ post = newline @ body @ fence @ post" by simp
  from block_tail_ws [OF W b nb, of post] nl obtain u g ms W2 where
    m: "rmatch False (Cat block_tail) (?W @ ?b @ fence @ post) = (u, [g]) # ms"
    and g: "g = W2 @ ?b" "list_all isspace W2"
    by (auto simp del: rmatch.simps)
  from g have "strip g = strip ?b" by (simp add: strip_spaces)
  also have "\<dots> = strip (takeWhile isspace body @ ?b)"
    by (rule strip_spaces [symmetric]) (auto simp: list_all_iff dest: set_takeWhileD)
  finally have "strip g = strip body" by simp
  moreover from m have "rmatch False (Cat block_tail) (newline @ body @ fence @ post) = (u, [g]) # ms"
    unfolding whole .
  ultimately show ?thesis by blast
qed

lemma tag_pattern_open:
  "rmatch False (tag_pattern t) (fence @ rest) =
     (if prefix t rest
      then map (\<lambda>(v, h). (fence @ t @ v, h)) (rmatch False (Cat block_tail) (drop (length t) rest))
      else [])"
  unfolding tag_pattern_def
  by (simp add: lit_match case_prod_unfold del: rmatch.simps(1))

lemma no_backticks: "CHR ''`'' \<notin> set s \<Longrightarrow> backticks s = 0"
  by (induction s) (auto simp: backticks_def)

lemma backticks_Cons: "backticks (c # s) = (if c = CHR ''`'' then 1 else 0) + backticks s"
  by (simp add: backticks_def)

lemma backticks_fence: "backticks fence = 3"
  by (simp add: backticks_def fence_def)

lemma search_single:
  assumes "CHR ''`'' \<notin> set pre" "CHR ''`'' \<notin> set X" "CHR ''`'' \<notin> set post"
    and "6 \<le> min_backticks (Cat (Lit (fence @ t) # rs))"
  shows "search ic (Cat (Lit (fence @ t) # rs)) (pre @ fence @ X @ fence @ post) =
           (case rmatch ic (Cat (Lit (fence @ t) # rs)) (fence @ X @ fence @ post) of
              [] \<Rightarrow> None | (u, g) # _ \<Rightarrow> Some g)"
proof -
  let ?p = "Cat (Lit (fence @ t) # rs)"
  let ?tl = "''``'' @ X @ fence @ post"
  have s0: "fence @ X @ fence @ post = CHR ''`'' # ?tl" by (simp add: fence_def)
  from assms(2,3) have "backticks ?tl = 5"
    by (simp add: backticks_Cons backticks_append no_backticks backticks_fence)
  with assms(4) have "search ic ?p ?tl = None"
    by (intro search_few_backticks) simp
  then have "search ic ?p (fence @ X @ fence @ post) =
      (case rmatch ic ?p (fence @ X @ fence @ post) of [] \<Rightarrow> None | (u, g) # _ \<Rightarrow> Some g)"
    unfolding s0 by (simp del: rmatch.simps split: list.splits)
  with search_skip [OF assms(1), of ic t rs] show ?thesis by simp
qed

lemma findall_single_none:
  assumes "CHR ''`'' \<notin> set pre" "CHR ''`'' \<notin> set X" "CHR ''`'' \<notin> set post"
    and "6 \<le> min_backticks (Cat (Lit (fence @ t) # rs))"
    and "rmatch ic (Cat (Lit (fence @ t) # rs)) (fence @ X @ fence @ post) = []"
  shows "findall ic (Cat (Lit (fence @ t) # rs)) (pre @ fence @ X @ fence @ post) = []"
proof -
  let ?p = "Cat (Lit (fence @ t) # rs)"
  let ?tl = "''``'' @ X @ fence @ post"
  have s0: "fence @ X @ fence @ post = CHR ''`'' # ?tl" by (simp add: fence_def)
  from assms(2,3) have "backticks ?tl = 5"
    by (simp add: backticks_Cons backticks_append no_backticks backticks_fence)
  with assms(4) have "findall ic ?p ?tl = []"
    by (intro findall_few_backticks) simp
  with assms(5) have "findall ic ?p (fence @ X @ fence @ post) = []"
    unfolding s0 by (subst findall.simps) (simp del: rmatch.simps)
  with findall_skip [OF assms(1), of ic t rs] show ?thesis by simp
qed

lemma tag_pattern_backticks: "6 \<le> min_backticks (Cat (Lit (fence @ t) # block_tail))"
  by (simp add: block_tail_def backticks_append backticks_fence)

lemma tag_search_miss:
  assumes "no_backtick pre" "no_backtick tag" "no_backtick body" "no_backtick post"
    and "\<not> prefix t (tag @ newline @ body @ fence @ post)"
  shows "search False (tag_pattern t) (single_block pre tag body post) = None"
proof -
  have X: "CHR ''`'' \<notin> set (tag @ newline @ body)"
    using assms(2,3) by (simp add: no_backtick_def newline_def)
  from assms(5) have "rmatch False (tag_pattern t) (fence @ (tag @ newline @ body) @ fence @ post) = []"
    by (simp add: tag_pattern_open del: rmatch.simps)
  with search_single [OF _ X _ tag_pattern_backticks, of pre post False t] assms(1,4)
  show ?thesis
    by (simp add: single_block_def tag_pattern_def no_backtick_def del: rmatch.simps search.simps)
qed

lemma tag_search_hit:
  assumes "no_backtick pre" "no_backtick tag" "no_backtick body" "no_backtick post"
  shows "\<exists>g gs. search False (tag_pattern tag) (single_block pre tag body post) = Some (g # gs) \<and>
           strip g = strip body"
proof -
  have X: "CHR ''`'' \<notin> set (tag @ newline @ body)"
    using assms(2,3) by (simp add: no_backtick_def newline_def)
  from assms(3) block_tail_match [of body post] obtain u g ms where
    "rmatch False (Cat block_tail) (newline @ body @ fence @ post) = (u, [g]) # ms"
    and g: "strip g = strip body"
    by (auto simp: no_backtick_def simp del: rmatch.simps)
  then have "rmatch False (tag_pattern tag) (fence @ (tag @ newline @ body) @ fence @ post) =
      (fence @ tag @ u, [g]) # map (\<lambda>(v, h). (fence @ tag @ v, h)) ms"
    by (simp add: tag_pattern_open del: rmatch.simps)
  with search_single [OF _ X _ tag_pattern_backticks, of pre post False tag] assms(1,4)
  have "search False (tag_pattern tag) (single_block pre tag body post) = Some [g]"
    by (simp add: single_block_def tag_pattern_def no_backtick_def del: rmatch.simps search.simps)
  with g show ?thesis by blast
qed

lemma pattern1_form:
  "pattern1 = Cat (Lit (fence @ []) #
     Group (Cat [Plus NonSpace, Lit ''.'', Alt [Lit ''html'', Lit ''css'', Lit ''js'', Lit ''json'']]) #
     block_tail)"
  by (simp add: pattern1_def)

lemma pattern1_backticks: "6 \<le> min_backticks pattern1"
  by (simp add: pattern1_def block_tail_def backticks_fence)

lemma explicit_files_none:
  assumes "no_backtick pre" "no_backtick tag" "no_backtick body" "no_backtick post"
    and "rmatch True pattern1 (fence @ tag @ newline @ body @ fence @ post) = []"
  shows "explicit_files (single_block pre tag body post) = []"
proof -
  have X: "CHR ''`'' \<notin> set (tag @ newline @ body)"
    using assms(2,3) by (simp add: no_backtick_def newline_def)
  from assms(5) have m: "rmatch True pattern1 (fence @ (tag @ newline @ body) @ fence @ post) = []"
    by (simp del: rmatch.simps)
  have "findall True pattern1 (single_block pre tag body post) = []"
    unfolding single_block_def
    using findall_single_none [OF _ X _ pattern1_backticks [unfolded pattern1_form]
        m [unfolded pattern1_form], of pre] assms(1,4)
    by (simp add: pattern1_form no_backtick_def del: rmatch.simps)
  then show ?thesis by (simp add: explicit_files_def)
qed

lemma pattern1_listed:
  "rmatch True pattern1 (fence @ ''html'' @ newline @ rest) = []"
  "rmatch True pattern1 (fence @ ''HTML'' @ newline @ rest) = []"
  "rmatch True pattern1 (fence @ ''htm'' @ newline @ rest) = []"
  "rmatch True pattern1 (fence @ ''css'' @ newline @ rest) = []"
  "rmatch True pattern1 (fence @ ''CSS'' @ newline @ rest) = []"
  "rmatch True pattern1 (fence @ ''javascript'' @ newline @ rest) = []"
  "rmatch True pattern1 (fence @ ''js'' @ newline @ rest) = []"
  "rmatch True pattern1 (fence @ ''JavaScript'' @ newline @ rest) = []"
  "rmatch True pattern1 (fence @ ''JS'' @ newline @ rest) = []"
  by (simp_all add: pattern1_def block_tail_def fence_def newline_def isspace_def same_text_def
        lower_def char_of_eq_iff eq_commute [of _ "char_of _"] take_bit_eq_mod)


lemma first_match_miss:
  assumes "no_backtick pre" "no_backtick tag" "no_backtick body" "no_backtick post"
    and "\<forall>t\<in>set ts. \<not> prefix t (tag @ newline @ body @ fence @ post)"
  shows "first_match (map tag_pattern ts) (single_block pre tag body post) = None"
  using assms(5)
proof (induction ts)
  case Nil
  show ?case by simp
next
  case (Cons t ts)
  then have "\<not> prefix t (tag @ newline @ body @ fence @ post)" by simp
  from tag_search_miss [OF assms(1-4) this] Cons show ?case
    by (simp del: search.simps)
qed

lemma first_match_hit:
  assumes "no_backtick pre" "no_backtick tag" "no_backtick body" "no_backtick post"
    and "\<forall>t\<in>set ts. \<not> prefix t (tag @ newline @ body @ fence @ post)"
  shows "\<exists>g. first_match (map tag_pattern (ts @ tag # ts2)) (single_block pre tag body post) = Some g \<and>
           strip g = strip body"
  using assms(5)
proof (induction ts)
  case Nil
  from tag_search_hit [OF assms(1-4)] show ?case
    by (auto simp del: search.simps)
next
  case (Cons t ts)
  then have "\<not> prefix t (tag @ newline @ body @ fence @ post)" by simp
  from tag_search_miss [OF assms(1-4) this] Cons show ?case
    by (simp del: search.simps)
qed

lemma patterns_as_maps:
  "html_patterns = map tag_pattern [''html'', ''HTML'', ''htm'']"
  "css_patterns = map tag_pattern [''css'', ''CSS'']"
  "js_patterns = map tag_pattern [''javascript'', ''js'', ''JavaScript'', ''JS'']"
  by (simp_all add: html_patterns_def css_patterns_def js_patterns_def)



lemma js_block:
  assumes nb: "no_backtick pre" "no_backtick body" "no_backtick post"
    and tag: "tag \<in> {''javascript'', ''js'', ''JavaScript'', ''JS''}"
  shows "parse_web_files (single_block pre tag body post) = [(''script.js'', strip body)]"
proof -
  let ?r = "single_block pre tag body post"
  from tag have nt: "no_backtick tag" by (auto simp: no_backtick_def)
  from tag pattern1_listed(6-9) [of "body @ fence @ post"]
  have "rmatch True pattern1 (fence @ tag @ newline @ body @ fence @ post) = []" by auto
  from explicit_files_none [OF nb(1) nt nb(2,3) this] have ex: "explicit_files ?r = []" .
  from tag obtain ts ts2 where split: "[''javascript'', ''js'', ''JavaScript'', ''JS''] = ts @ tag # ts2"
    and miss: "\<forall>t\<in>set ts. \<not> prefix t (tag @ newline @ body @ fence @ post)"
  proof (elim insertE emptyE)
    assume "tag = ''javascript''"
    then show ?thesis using that [of "[]" "[''js'', ''JavaScript'', ''JS'']"] by simp
  next
    assume "tag = ''js''"
    then show ?thesis using that [of "[''javascript'']" "[''JavaScript'', ''JS'']"] by simp
  next
    assume "tag = ''JavaScript''"
    then show ?thesis using that [of "[''javascript'', ''js'']" "[''JS'']"] by simp
  next
    assume "tag = ''JS''"
    then show ?thesis using that [of "[''javascript'', ''js'', ''JavaScript'']" "[]"] by simp
  qed
  from first_match_hit [OF nb(1) nt nb(2,3) miss, of ts2] split obtain g where
    js: "first_match js_patterns ?r = Some g" and g: "strip g = strip body"
    by (auto simp: patterns_as_maps)
  from tag have html: "first_match html_patterns ?r = None"
    unfolding patterns_as_maps
    by (intro first_match_miss [OF nb(1) nt nb(2,3)]) auto
  from tag have css: "first_match css_patterns ?r = None"
    unfolding patterns_as_maps
    by (intro first_match_miss [OF nb(1) nt nb(2,3)]) auto
  from ex html css js g show ?thesis
    by (simp add: parse_web_files_def tagged_files_def generic_fallback_def ultimate_fallback_def
          has_key_def)
qed

text \<open>
  C2, as amended. For every response whose only fenced block is tagged \<open>js\<close> (no other
  backtick before, inside or after the block), the resolver returns exactly one entry:
  \<open>script.js\<close> with the stripped content of the block. No \<open>index.html\<close> is added, since the
  mapping is not empty when the fallbacks are reached.
\<close>

theorem js_block_alone:
  assumes "no_backtick pre" "no_backtick body" "no_backtick post"
  shows "parse_web_files (single_block pre ''js'' body post) = [(''script.js'', strip body)] \<and>
         \<not> has_key (parse_web_files (single_block pre ''js'' body post)) ''index.html''"
proof -
  from js_block [OF assms, of "''js''"]
  have "parse_web_files (single_block pre ''js'' body post) = [(''script.js'', strip body)]"
    by simp
  then show ?thesis by (simp add: has_key_def)
qed

theorem js_block_alone_witness:
  "no_backtick ''Here: '' \<and> no_backtick ''alert(1)\<newline>'' \<and> no_backtick '' Done.'' \<and>
   parse_web_files (single_block ''Here: '' ''js'' ''alert(1)\<newline>'' '' Done.'') =
     [(''script.js'', ''alert(1)'')]"
proof -
  have nb: "no_backtick ''Here: ''" "no_backtick ''alert(1)\<newline>''" "no_backtick '' Done.''"
    by (simp_all add: no_backtick_def)
  have st: "strip ''alert(1)\<newline>'' = ''alert(1)''"
    by (simp add: strip_def isspace_def)
  from js_block_alone [OF nb] nb st show ?thesis by simp
qed

text \<open>The scenario of the specification: the result has no \<open>index.html\<close>.\<close>

lemma js_scenario:
  "parse_web_files ''Sure! ```js\<newline>console.log(1)\<newline>```'' = [(''script.js'', ''console.log(1)'')]"
  by code_simp

theorem js_scenario_counterexample:
  "parse_web_files ''Sure! ```js\<newline>console.log(1)\<newline>```'' =
     [(''script.js'', ''console.log(1)'')] \<and>
   \<not> has_key (parse_web_files ''Sure! ```js\<newline>console.log(1)\<newline>```'') ''index.html''"
  unfolding js_scenario by (simp add: has_key_def)






section \<open>The deploy controller starts the file server once\<close>

lemma start_preview_server_running:
  "server_running s \<Longrightarrow> start_preview_server w s = (Inr (), s)"
  by (simp add: start_preview_server_def ret_def)

lemma kill_neq_start: "kill_command \<noteq> start_command"
  by (simp add: kill_command_def start_command_def WORKSPACE_DIR_def)

lemma start_preview_server_first:
  assumes "start_preview_server w s = (r1, s1)" and "\<not> server_running s"
    and "server_running s1"
  shows "count_list (effects s1) (Exec start_command) =
         Suc (count_list (effects s) (Exec start_command))"
  using assms kill_neq_start
  unfolding start_preview_server_def
  by (auto simp: bind_def ret_def execute_command_def need_remote_def create_sandbox_def
        call_def Let_def
      split: if_splits option.splits prod.splits sum.splits)

text \<open>
  C9. When the server is marked running after a call of \<open>start_preview_server\<close>, the
  next call returns at once and leaves the state as it is: it issues no call to the
  sandbox (no kill, no start command) and does not sleep. Over both calls the start
  command has been issued once if the server was not running before, and not at all
  otherwise.
\<close>

theorem ensure_running_idempotent:
  assumes "start_preview_server w s = (r1, s1)" and "server_running s1"
  shows "start_preview_server w s1 = (Inr (), s1) \<and>
         count_list (effects s1) (Exec start_command) =
           (if server_running s then 0 else 1) + count_list (effects s) (Exec start_command)"
proof (cases "server_running s")
  case True
  with assms(1) have "s1 = s"
    by (simp add: start_preview_server_running)
  with True assms(2) show ?thesis
    by (simp add: start_preview_server_running)
next
  case False
  from start_preview_server_first [OF assms(1) False assms(2)] False assms(2)
  show ?thesis
    by (simp add: start_preview_server_running)
qed

theorem ensure_running_idempotent_witness:
  "server_running (snd (start_preview_server calm ready)) \<and>
   start_preview_server calm (snd (start_preview_server calm ready)) =
     (Inr (), snd (start_preview_server calm ready)) \<and>
   count_list (effects (snd (start_preview_server calm ready))) (Exec start_command) = 1"
proof -
  have run: "server_running (snd (start_preview_server calm ready))"
    by (simp add: start_preview_server_def ready_def init_def calm_def bind_def ret_def
          execute_command_def need_remote_def has_remote_def call_def Let_def)
  have before: "\<not> server_running ready" "effects ready = []"
    by (simp_all add: ready_def init_def)
  from ensure_running_idempotent [OF surjective_pairing run] before run show ?thesis
    by simp
qed

section \<open>What the collaborator calls leave untouched\<close>

lemma keepsD: "keeps fld m \<Longrightarrow> m s = (r, s1) \<Longrightarrow> fld s1 = fld s"
  by (auto simp: keeps_def)

lemma keeps_bind: "keeps fld m \<Longrightarrow> (\<And>a. keeps fld (f a)) \<Longrightarrow> keeps fld (bind m f)"
  unfolding keeps_def bind_def
  by (auto split: prod.splits sum.splits)

lemma keeps_try: "keeps fld m \<Longrightarrow> (\<And>e. keeps fld (h e)) \<Longrightarrow> keeps fld (try_except m h)"
  unfolding keeps_def try_except_def
  by (auto split: prod.splits sum.splits)

lemma keeps_ret: "keeps fld (ret a)" by (simp add: keeps_def ret_def)
lemma keeps_get: "keeps fld (get g)" by (simp add: keeps_def get_def)
lemma keeps_raise: "keeps fld (raise e)" by (simp add: keeps_def raise_def)
lemma keeps_lift: "keeps fld (lift x)" by (simp add: keeps_def lift_def)
lemma keeps_if: "keeps fld m \<Longrightarrow> keeps fld n \<Longrightarrow> keeps fld (if b then m else n)" by simp
lemma keeps_case_prod: "(\<And>a b. keeps fld (f a b)) \<Longrightarrow> keeps fld (case p of (a, b) \<Rightarrow> f a b)"
  by (cases p) simp
lemma keeps_case_option: "keeps fld m \<Longrightarrow> (\<And>a. keeps fld (f a)) \<Longrightarrow> keeps fld (case x of None \<Rightarrow> m | Some a \<Rightarrow> f a)"
  by (cases x) simp_all
lemma keeps_let: "keeps fld (f a) \<Longrightarrow> keeps fld (let x = a in f x)" by simp
lemma keeps_if_state: "keeps fld m \<Longrightarrow> keeps fld n \<Longrightarrow> keeps fld (\<lambda>s. if b s then m s else n s)"
  by (auto simp: keeps_def)
lemma keeps_set: "(\<And>s. fld (g s) = fld s) \<Longrightarrow> keeps fld (\<lambda>s. (r s, g s))"
  by (auto simp: keeps_def)
lemmas keeps_rules = keeps_bind keeps_try keeps_get keeps_ret keeps_raise keeps_lift keeps_if keeps_case_prod keeps_case_option keeps_let keeps_if_state

lemma keeps_comp: "keeps fld m \<Longrightarrow> keeps (\<lambda>s. g (fld s)) m"
  by (simp add: keeps_def)

lemma keeps_inner_call: "keeps inner (call w eff)"
  by (auto simp: keeps_def inner_def call_def Let_def split: option.splits)

lemma keeps_inner_create: "keeps inner (create_sandbox w)"
  unfolding create_sandbox_def
  by (rule keeps_bind [OF keeps_inner_call]) (simp add: keeps_def inner_def)

lemma keeps_inner_need_remote: "keeps inner (need_remote w)"
  unfolding need_remote_def
  by (intro keeps_rules keeps_inner_create)

lemma keeps_inner_execute_command: "keeps inner (execute_command w cmd)"
  unfolding execute_command_def
  by (intro keeps_rules keeps_inner_need_remote keeps_inner_call)

lemma keeps_inner_ensure_sandbox: "keeps inner (ensure_sandbox w)"
  using keepsD [OF keeps_inner_create]
  by (auto simp: keeps_def ensure_sandbox_def ret_def inner_def split: if_splits)

lemma keeps_inner_setup_workspace: "keeps inner (setup_workspace w)"
  unfolding setup_workspace_def
  by (intro keeps_rules keeps_inner_execute_command)

lemma keeps_inner_web_ensure_sandbox: "keeps inner (web_ensure_sandbox w)"
  unfolding web_ensure_sandbox_def
  by (intro keeps_rules keeps_inner_ensure_sandbox keeps_inner_setup_workspace)

lemma keeps_inner_chat: "keeps inner (chat w ms)"
  unfolding chat_def by (intro keeps_rules keeps_inner_call)

lemma keeps_inner_chat_stream: "keeps inner (chat_stream w ms)"
  unfolding chat_stream_def by (intro keeps_rules keeps_inner_call)

lemma keeps_inner_start_preview_server: "keeps inner (start_preview_server w)"
  unfolding start_preview_server_def
  by (intro keeps_rules keeps_inner_execute_command keeps_inner_call keeps_set)
     (simp add: inner_def)

lemma keeps_inner_get_preview_url: "keeps inner (get_preview_url w port)"
  unfolding get_preview_url_def
  by (intro keeps_rules keeps_inner_call)

lemma keeps_inner_session_get_preview_url: "keeps inner (session_get_preview_url w)"
  unfolding session_get_preview_url_def
  by (intro keeps_rules keeps_inner_get_preview_url keeps_set) (simp add: inner_def)

lemma keeps_inner_deploy_and_preview: "keeps inner (deploy_and_preview w)"
  unfolding deploy_and_preview_def
  by (intro keeps_rules keeps_inner_start_preview_server keeps_inner_session_get_preview_url)


lemma innerD:
  "inner s1 = inner s \<Longrightarrow>
   history s1 = history s \<and> project_files s1 = project_files s \<and>
   sandbox_files s1 = sandbox_files s \<and> emitted s1 = emitted s"
  by (simp add: inner_def)

lemma writes_write: "writes p c (write_file p c)"
  by (simp add: writes_def write_file_def)



lemma writesD:
  "writes p c m \<Longrightarrow> m s = (r, s1) \<Longrightarrow>
   history s1 = history s \<and> project_files s1 = project_files s \<and> emitted s1 = emitted s \<and>
   sandbox_files s1 =
     (case r of Inr _ \<Rightarrow> AList.update p c (sandbox_files s) | Inl _ \<Rightarrow> sandbox_files s)"
  unfolding writes_def by blast

lemma writes_after:
  assumes m: "keeps inner m" and f: "\<And>a. writes p c (f a)"
  shows "writes p c (bind m f)"
  unfolding writes_def
proof (intro allI impI)
  fix s r s1
  assume run: "bind m f s = (r, s1)"
  obtain r0 s0 where ms: "m s = (r0, s0)" by (cases "m s")
  from keepsD [OF m ms] have same: "history s0 = history s" "project_files s0 = project_files s"
    "emitted s0 = emitted s" "sandbox_files s0 = sandbox_files s"
    by (simp_all add: inner_def)
  show "history s1 = history s \<and> project_files s1 = project_files s \<and> emitted s1 = emitted s \<and>
        sandbox_files s1 =
          (case r of Inr _ \<Rightarrow> AList.update p c (sandbox_files s) | Inl _ \<Rightarrow> sandbox_files s)"
  proof (cases r0)
    case (Inl e)
    with ms run have "r = Inl e" "s1 = s0" by (simp_all add: bind_def)
    with same show ?thesis by simp
  next
    case (Inr a)
    with ms run have "f a s0 = (r, s1)" by (simp add: bind_def)
    from writesD [OF f this] same show ?thesis by (simp split: sum.split)
  qed
qed

lemma writes_try:
  assumes m: "writes p c m" and h: "\<And>e. writes p c (h e)"
  shows "writes p c (try_except m h)"
  unfolding writes_def
proof (intro allI impI)
  fix s r s1
  assume run: "try_except m h s = (r, s1)"
  obtain r0 s0 where ms: "m s = (r0, s0)" by (cases "m s")
  note first = writesD [OF m ms]
  show "history s1 = history s \<and> project_files s1 = project_files s \<and> emitted s1 = emitted s \<and>
        sandbox_files s1 =
          (case r of Inr _ \<Rightarrow> AList.update p c (sandbox_files s) | Inl _ \<Rightarrow> sandbox_files s)"
  proof (cases r0)
    case (Inl e)
    with ms run have "h e s0 = (r, s1)" by (simp add: try_except_def)
    from writesD [OF h this] first Inl show ?thesis by (simp split: sum.split)
  next
    case (Inr a)
    with ms run have "r = Inr a" "s1 = s0" by (simp_all add: try_except_def)
    with first Inr show ?thesis by simp
  qed
qed

lemma writes_ret:
  assumes m: "writes p c m"
  shows "writes p c (bind m (\<lambda>_. ret a))"
  unfolding writes_def
proof (intro allI impI)
  fix s r s1
  assume run: "bind m (\<lambda>_. ret a) s = (r, s1)"
  obtain r0 s0 where ms: "m s = (r0, s0)" by (cases "m s")
  note first = writesD [OF m ms]
  show "history s1 = history s \<and> project_files s1 = project_files s \<and> emitted s1 = emitted s \<and>
        sandbox_files s1 =
          (case r of Inr _ \<Rightarrow> AList.update p c (sandbox_files s) | Inl _ \<Rightarrow> sandbox_files s)"
  proof (cases r0)
    case (Inl e)
    with ms run have "r = Inl e" "s1 = s0" by (simp_all add: bind_def)
    with first Inl show ?thesis by simp
  next
    case (Inr b)
    with ms run have "r = Inr a" "s1 = s0" by (simp_all add: bind_def ret_def)
    with first Inr show ?thesis by simp
  qed
qed

lemma writes_upload_file: "writes p c (upload_file w p c)"
  unfolding upload_file_def
  by (intro writes_after writes_ret writes_try writes_write keeps_inner_need_remote
        keeps_inner_call keeps_rules)

lemma upload_file_spec:
  assumes "upload_file w p c s = (r, s1)"
  shows "history s1 = history s \<and> project_files s1 = project_files s \<and> emitted s1 = emitted s \<and>
         sandbox_files s1 =
           (case r of Inr _ \<Rightarrow> AList.update p c (sandbox_files s) | Inl _ \<Rightarrow> sandbox_files s)"
  by (rule writesD [OF writes_upload_file assms])


section \<open>The session file store\<close>

lemma update_file_written:
  assumes "sandbox s \<noteq> None" and "update_file w f c s = (Inr x, s1)"
  shows "project_files s1 = AList.update f c (project_files s)"
proof -
  obtain r0 s0 where up: "upload_file w (workspace_path f) c s = (r0, s0)"
    by (cases "upload_file w (workspace_path f) c s")
  with assms upload_file_spec [OF up] show ?thesis
    by (cases r0) (auto simp: update_file_def bind_def set_project_file_def)
qed

text \<open>
  C8, as amended. For a session whose agent holds a sandbox manager: when
  \<open>update_file(name, content)\<close> returns, \<open>get_file_content(name)\<close> is exactly that content,
  and \<open>get_project_files()\<close> is the previous listing, with the name added at the end if it
  was not listed: a rewrite keeps the position of the first write.
\<close>

theorem file_store_round_trip:
  assumes "sandbox s \<noteq> None" and "update_file w f c s = (Inr x, s1)"
  shows "get_file_content s1 f = Some c \<and>
         get_project_files s1 =
           (if f \<in> set (get_project_files s) then get_project_files s
            else get_project_files s @ [f])"
  using update_file_written [OF assms]
  by (simp add: get_file_content_def get_project_files_def update_conv' update_keys)

theorem file_store_round_trip_witness:
  "sandbox ready \<noteq> None \<and>
   fst (update_file calm ''index.html'' ''<p>Hi</p>'' ready) = Inr () \<and>
   get_file_content (snd (update_file calm ''index.html'' ''<p>Hi</p>'' ready)) ''index.html'' =
     Some ''<p>Hi</p>'' \<and>
   get_project_files (snd (update_file calm ''index.html'' ''<p>Hi</p>'' ready)) =
     [''index.html'']"
proof -
  have sb: "sandbox ready \<noteq> None"
    by (simp add: ready_def init_def)
  have okf: "fst (update_file calm ''index.html'' ''<p>Hi</p>'' ready) = Inr ()"
    by (simp add: update_file_def upload_file_def ready_def init_def calm_def bind_def ret_def
          try_except_def need_remote_def has_remote_def call_def Let_def write_file_def
          set_project_file_def)
  then have ok: "update_file calm ''index.html'' ''<p>Hi</p>'' ready =
      (Inr (), snd (update_file calm ''index.html'' ''<p>Hi</p>'' ready))"
    by (simp add: prod_eq_iff)
  have emp: "get_project_files ready = []"
    by (simp add: get_project_files_def ready_def init_def)
  from file_store_round_trip [OF sb ok] sb okf emp show ?thesis
    by simp
qed

text \<open>
  Without a sandbox manager \<open>update_file\<close> returns at its guard and writes nothing: the
  file read back is not the one written.
\<close>

theorem update_without_sandbox_counterexample:
  "update_file calm ''index.html'' ''<p>Hi</p>'' init = (Inr (), init) \<and>
   get_file_content init ''index.html'' = None"
  by (simp add: update_file_def init_def ret_def get_file_content_def)

section \<open>The file store mirrors the uploads\<close>

lemma preservesD: "preserves I m \<Longrightarrow> I s \<Longrightarrow> m s = (r, s1) \<Longrightarrow> I s1"
  by (auto simp: preserves_def)

lemma preserves_bind:
  assumes m: "preserves I m" and f: "\<And>a. preserves I (f a)"
  shows "preserves I (bind m f)"
  unfolding preserves_def
proof (intro allI impI)
  fix s r s1
  assume inv: "I s" and run: "bind m f s = (r, s1)"
  obtain r0 s0 where ms: "m s = (r0, s0)" by (cases "m s")
  from preservesD [OF m inv ms] have inv0: "I s0" .
  show "I s1"
  proof (cases r0)
    case (Inl e)
    with ms run inv0 show ?thesis by (simp add: bind_def)
  next
    case (Inr a)
    with ms run have "f a s0 = (r, s1)" by (simp add: bind_def)
    from preservesD [OF f inv0 this] show ?thesis .
  qed
qed

lemma preserves_try:
  assumes m: "preserves I m" and h: "\<And>e. preserves I (h e)"
  shows "preserves I (try_except m h)"
  unfolding preserves_def
proof (intro allI impI)
  fix s r s1
  assume inv: "I s" and run: "try_except m h s = (r, s1)"
  obtain r0 s0 where ms: "m s = (r0, s0)" by (cases "m s")
  from preservesD [OF m inv ms] have inv0: "I s0" .
  show "I s1"
  proof (cases r0)
    case (Inl e)
    with ms run have "h e s0 = (r, s1)" by (simp add: try_except_def)
    from preservesD [OF h inv0 this] show ?thesis .
  next
    case (Inr a)
    with ms run inv0 show ?thesis by (simp add: try_except_def)
  qed
qed

lemma preserves_ret: "preserves I (ret a)" by (simp add: preserves_def ret_def)
lemma preserves_get: "preserves I (get g)" by (simp add: preserves_def get_def)
lemma preserves_raise: "preserves I (raise e)" by (simp add: preserves_def raise_def)
lemma preserves_lift: "preserves I (lift x)" by (simp add: preserves_def lift_def)
lemma preserves_if: "preserves I m \<Longrightarrow> preserves I n \<Longrightarrow> preserves I (if b then m else n)" by simp
lemma preserves_case_prod: "(\<And>a b. preserves I (f a b)) \<Longrightarrow> preserves I (case p of (a, b) \<Rightarrow> f a b)"
  by (cases p) simp
lemma preserves_case_option: "preserves I m \<Longrightarrow> (\<And>a. preserves I (f a)) \<Longrightarrow> preserves I (case x of None \<Rightarrow> m | Some a \<Rightarrow> f a)"
  by (cases x) simp_all
lemma preserves_let: "preserves I (f a) \<Longrightarrow> preserves I (let x = a in f x)" by simp
lemma preserves_if_state:
  assumes m: "preserves I m" and n: "preserves I n"
  shows "preserves I (\<lambda>s. if b s then m s else n s)"
  unfolding preserves_def
proof (intro allI impI)
  fix s r s1
  assume inv: "I s" and run: "(if b s then m s else n s) = (r, s1)"
  show "I s1"
  proof (cases "b s")
    case True
    with run have "m s = (r, s1)" by simp
    from preservesD [OF m inv this] show ?thesis .
  next
    case False
    with run have "n s = (r, s1)" by simp
    from preservesD [OF n inv this] show ?thesis .
  qed
qed
lemmas preserves_rules = preserves_bind preserves_try preserves_get preserves_ret preserves_raise preserves_lift
  preserves_if preserves_case_prod preserves_case_option preserves_let preserves_if_state

lemma keeps_preserves_consistent:
  assumes "keeps inner m"
  shows "preserves consistent m"
  unfolding preserves_def
proof (intro allI impI)
  fix s r s1
  assume "consistent s" and "m s = (r, s1)"
  with keepsD [OF assms] have "consistent s" "project_files s1 = project_files s"
    "sandbox_files s1 = sandbox_files s"
    by (simp_all add: inner_def)
  then show "consistent s1" by (simp add: consistent_def)
qed

lemmas inner_consistent =
  keeps_inner_call [THEN keeps_preserves_consistent]
  keeps_inner_need_remote [THEN keeps_preserves_consistent]
  keeps_inner_ensure_sandbox [THEN keeps_preserves_consistent]
  keeps_inner_web_ensure_sandbox [THEN keeps_preserves_consistent]
  keeps_inner_chat [THEN keeps_preserves_consistent]
  keeps_inner_chat_stream [THEN keeps_preserves_consistent]
  keeps_inner_deploy_and_preview [THEN keeps_preserves_consistent]

lemma workspace_path_inj: "workspace_path f = workspace_path g \<longleftrightarrow> f = g"
  by (simp add: workspace_path_def)

lemma workspace_path_not_tmp:
  "workspace_path f \<noteq> ''/tmp/script.py''" "workspace_path f \<noteq> ''/tmp/script.js''"
  by (simp_all add: workspace_path_def WORKSPACE_DIR_def)

lemma consistent_emit: "preserves consistent (emit ev)"
  by (simp add: preserves_def emit_def consistent_def)

lemma consistent_append_history: "preserves consistent (append_history t)"
  by (simp add: preserves_def append_history_def consistent_def)

lemma consistent_write_tmp:
  "preserves consistent (write_file ''/tmp/script.py'' c)"
  "preserves consistent (write_file ''/tmp/script.js'' c)"
  using workspace_path_not_tmp
  by (auto simp: preserves_def write_file_def consistent_def update_conv')

lemma consistent_upload_set:
  assumes "preserves consistent k"
  shows "preserves consistent
           (bind (upload_file w (workspace_path f) c) (\<lambda>_. bind (set_project_file f c) (\<lambda>_. k)))"
  unfolding preserves_def
proof (intro allI impI)
  fix s r s1
  assume c: "consistent s"
    and run: "bind (upload_file w (workspace_path f) c)
                (\<lambda>_. bind (set_project_file f c) (\<lambda>_. k)) s = (r, s1)"
  obtain r0 s0 where up: "upload_file w (workspace_path f) c s = (r0, s0)"
    by (cases "upload_file w (workspace_path f) c s")
  note spec = upload_file_spec [OF up]
  show "consistent s1"
  proof (cases r0)
    case (Inl e)
    with up run have "s1 = s0" by (simp add: bind_def)
    with spec Inl c show ?thesis by (simp add: consistent_def)
  next
    case (Inr y)
    let ?s2 = "s0\<lparr>project_files := AList.update f c (project_files s0)\<rparr>"
    from spec Inr c have "consistent ?s2"
      by (simp add: consistent_def update_conv' workspace_path_inj)
    moreover from up run Inr have "k ?s2 = (r, s1)"
      by (simp add: bind_def set_project_file_def)
    ultimately show ?thesis using assms by (auto simp: preserves_def)
  qed
qed

lemma consistent_upload_all: "preserves consistent (upload_all w fs)"
proof (induction fs)
  case Nil
  show ?case by (simp add: preserves_ret)
next
  case (Cons a fs)
  obtain f c where "a = (f, c)" by (cases a)
  with consistent_upload_set [OF Cons.IH] show ?case by simp
qed

lemma consistent_upload_all_emit: "preserves consistent (upload_all_emit w fs)"
proof (induction fs)
  case Nil
  show ?case by (simp add: preserves_ret)
next
  case (Cons a fs)
  obtain f c where a: "a = (f, c)" by (cases a)
  have "preserves consistent (bind (emit (Code f c)) (\<lambda>_. upload_all_emit w fs))"
    by (intro preserves_bind consistent_emit Cons.IH)
  from consistent_upload_set [OF this] a show ?case by simp
qed

lemma consistent_emit_tokens: "preserves consistent (emit_tokens cs)"
  by (induction cs) (auto intro: preserves_rules consistent_emit)

lemma consistent_generate_web_code: "preserves consistent (generate_web_code w prompt)"
  unfolding generate_web_code_def
  by (intro preserves_rules inner_consistent consistent_upload_all consistent_append_history)

lemma consistent_stream_generate: "preserves consistent (stream_generate w prompt)"
  unfolding stream_generate_def
  by (intro preserves_rules inner_consistent consistent_upload_all_emit consistent_append_history
        consistent_emit_tokens)

lemma consistent_update_file: "preserves consistent (update_file w f c)"
proof -
  have "preserves consistent (bind (upload_file w (workspace_path f) c) (\<lambda>_. bind (set_project_file f c) (\<lambda>_. ret ())))"
    by (rule consistent_upload_set) (rule preserves_ret)
  moreover have "bind (set_project_file f c) (\<lambda>_. ret ()) = set_project_file f c"
    by (rule ext) (simp add: bind_def set_project_file_def ret_def)
  ultimately show ?thesis
    unfolding update_file_def
    by (auto intro!: preserves_rules)
qed


lemma consistent_generate_code: "preserves consistent (generate_code w prompt lang)"
  unfolding generate_code_def
  by (intro preserves_rules inner_consistent)

lemma consistent_analyze_error: "preserves consistent (analyze_error w src err lang)"
  unfolding analyze_error_def
  by (intro preserves_rules inner_consistent)

lemma consistent_generate: "preserves consistent (generate w prompt lang)"
  unfolding generate_def
  by (intro preserves_rules consistent_generate_code consistent_append_history)

lemma consistent_execute_code: "preserves consistent (execute_code w src lang)"
  unfolding execute_code_def
  by (intro preserves_rules inner_consistent consistent_write_tmp)

lemma consistent_execute: "preserves consistent (execute w src lang)"
  unfolding execute_def
  by (intro preserves_rules inner_consistent consistent_execute_code consistent_append_history)

lemma consistent_fix_loop:
  "consistent s \<Longrightarrow> fix_loop w lang auto_fix src res n s = (r, s1) \<Longrightarrow> consistent s1"
proof (induction w lang auto_fix src res n s arbitrary: r s1 rule: fix_loop.induct)
  case (1 w lang auto_fix src res n s)
  note run = "1.prems"(2)
  show ?case
  proof (cases "auto_fix \<and> stderr res \<noteq> [] \<and> n < MAX_RETRIES")
    case False
    with run "1.prems"(1) show ?thesis
      by (subst (asm) fix_loop.simps) simp
  next
    case guard: True
    obtain r1 s2 where an: "analyze_error w src (stderr res) lang s = (r1, s2)"
      by (cases "analyze_error w src (stderr res) lang s")
    from preservesD [OF consistent_analyze_error "1.prems"(1) an] have c2: "consistent s2" .
    show ?thesis
    proof (cases r1)
      case (Inl e)
      with guard an run c2 show ?thesis
        by (subst (asm) fix_loop.simps) simp
    next
      case fixed: (Inr fix_result)
      obtain r2 s3 where ex: "execute w (code fix_result) lang s2 = (r2, s3)"
        by (cases "execute w (code fix_result) lang s2")
      from preservesD [OF consistent_execute c2 ex] have c3: "consistent s3" .
      show ?thesis
      proof (cases r2)
        case (Inl e)
        with guard an fixed ex run c3 show ?thesis
          by (subst (asm) fix_loop.simps) simp
      next
        case res2: (Inr res2)
        show ?thesis
        proof (cases "stderr res2 = []")
          case True
          with guard an fixed ex res2 run c3 show ?thesis
            by (subst (asm) fix_loop.simps) simp
        next
          case False
          with guard an fixed ex res2 run
          have "fix_loop w lang auto_fix (code fix_result) res2 (Suc n) s3 = (r, s1)"
            by (subst (asm) fix_loop.simps) simp
          from "1.IH" [OF guard an [symmetric] fixed ex [symmetric] res2 False c3 this]
          show ?thesis .
        qed
      qed
    qed
  qed
qed

lemma consistent_fix_loop': "preserves consistent (fix_loop w lang auto_fix src res n)"
  unfolding preserves_def using consistent_fix_loop by blast

lemma consistent_run: "preserves consistent (run w prompt lang auto_fix)"
  unfolding run_def
  by (intro preserves_rules consistent_generate consistent_execute consistent_fix_loop')

lemma consistent_chat_turn: "preserves consistent (chat_turn w prompt)"
  unfolding chat_turn_def chat_body_def
  by (intro preserves_rules consistent_stream_generate inner_consistent consistent_emit)

lemma consistent_chat_endpoint: "preserves consistent (chat_endpoint w prompt)"
  unfolding chat_endpoint_def
  by (intro preserves_rules consistent_generate_web_code inner_consistent)

lemma consistent_perform: "consistent s \<Longrightarrow> consistent (perform w a s)"
proof (cases a)
  case Create_session
  assume "consistent s"
  from preservesD [OF inner_consistent(4) this surjective_pairing] Create_session
  show ?thesis by simp
next
  case (Generate_web_code p)
  assume "consistent s"
  from preservesD [OF consistent_generate_web_code this surjective_pairing] Generate_web_code
  show ?thesis by simp
next
  case (Stream_generate p)
  assume "consistent s"
  from preservesD [OF consistent_stream_generate this surjective_pairing] Stream_generate
  show ?thesis by simp
next
  case (Update_file f c)
  assume "consistent s"
  from preservesD [OF consistent_update_file this surjective_pairing] Update_file
  show ?thesis by simp
next
  case Deploy_and_preview
  assume "consistent s"
  from preservesD [OF inner_consistent(7) this surjective_pairing] Deploy_and_preview
  show ?thesis by simp
next
  case (Chat_turn p)
  assume "consistent s"
  from preservesD [OF consistent_chat_turn this surjective_pairing] Chat_turn
  show ?thesis by simp
next
  case (Chat_endpoint p)
  assume "consistent s"
  from preservesD [OF consistent_chat_endpoint this surjective_pairing] Chat_endpoint
  show ?thesis by simp
next
  case (Run p l af)
  assume "consistent s"
  from preservesD [OF consistent_run this surjective_pairing] Run
  show ?thesis by simp
qed

lemma consistent_after: "consistent s \<Longrightarrow> consistent (after w s acts)"
  by (induction acts arbitrary: s) (simp_all add: consistent_perform)

lemma consistent_init: "consistent init"
  by (simp add: consistent_def init_def)

text \<open>
  C3. In every state a session reaches from its start by generations (batch or streamed),
  direct edits, deployments, chat turns and runs, whether they succeed or fail, the file
  store and the files uploaded into the workspace directory agree: the content stored
  under a file name is the content last uploaded to its workspace path, and every file
  uploaded to a workspace path is stored under its name with that content.
\<close>

theorem file_store_mirrors_uploads:
  "(\<forall>f c. map_of (project_files (after w init acts)) f = Some c \<longrightarrow>
           map_of (sandbox_files (after w init acts)) (workspace_path f) = Some c) \<and>
   (\<forall>f c. map_of (sandbox_files (after w init acts)) (workspace_path f) = Some c \<longrightarrow>
           map_of (project_files (after w init acts)) f = Some c)"
  using consistent_after [OF consistent_init, of w acts]
  by (simp add: consistent_def)


lemma sample_turn_files:
  "project_files (after calm init [Create_session, Chat_turn ''a page'']) = [(''index.html'', ''<p></p>'')]"
  by code_simp

theorem file_store_mirrors_uploads_witness:
  "map_of (project_files (after calm init [Create_session, Chat_turn ''a page''])) ''index.html'' = Some ''<p></p>'' \<and>
   map_of (sandbox_files (after calm init [Create_session, Chat_turn ''a page''])) (workspace_path ''index.html'') = Some ''<p></p>''"
proof -
  have stored: "map_of (project_files (after calm init [Create_session, Chat_turn ''a page''])) ''index.html'' = Some ''<p></p>''"
    unfolding sample_turn_files by simp
  with file_store_mirrors_uploads [of calm "[Create_session, Chat_turn ''a page'']"]
  show ?thesis by blast
qed

section \<open>Events and history of a generation turn\<close>

lemma emitsD: "emits P m \<Longrightarrow> m s = (r, s1) \<Longrightarrow> \<exists>evs. emitted s1 = emitted s @ evs \<and> list_all P evs"
  unfolding emits_def by blast

lemma emits_bind:
  assumes m: "emits P m" and f: "\<And>a. emits P (f a)"
  shows "emits P (bind m f)"
  unfolding emits_def
proof (intro allI impI)
  fix s r s1
  assume run: "bind m f s = (r, s1)"
  obtain r0 s0 where ms: "m s = (r0, s0)" by (cases "m s")
  from emitsD [OF m ms] obtain evs0 where e0: "emitted s0 = emitted s @ evs0" "list_all P evs0"
    by blast
  show "\<exists>evs. emitted s1 = emitted s @ evs \<and> list_all P evs"
  proof (cases r0)
    case (Inl e)
    with ms run have "s1 = s0" by (simp add: bind_def)
    with e0 show ?thesis by blast
  next
    case (Inr a)
    with ms run have "f a s0 = (r, s1)" by (simp add: bind_def)
    from emitsD [OF f this] obtain evs1 where "emitted s1 = emitted s0 @ evs1" "list_all P evs1"
      by blast
    with e0 have "emitted s1 = emitted s @ (evs0 @ evs1)" "list_all P (evs0 @ evs1)" by simp_all
    then show ?thesis by blast
  qed
qed

lemma keeps_emits:
  assumes "keeps inner m"
  shows "emits P m"
  unfolding emits_def
proof (intro allI impI)
  fix s r s1
  assume "m s = (r, s1)"
  from keepsD [OF assms this] have "emitted s1 = emitted s @ []" by (simp add: inner_def)
  then show "\<exists>evs. emitted s1 = emitted s @ evs \<and> list_all P evs" by (intro exI [of _ "[]"]) simp
qed

lemma emits_emit: "P ev \<Longrightarrow> emits P (emit ev)"
  unfolding emits_def emit_def by (intro allI impI exI [of _ "[ev]"]) auto

lemma emits_ret: "emits P (ret a)" by (rule keeps_emits) (rule keeps_ret)
lemma emits_get: "emits P (get g)" by (rule keeps_emits) (rule keeps_get)
lemma emits_raise: "emits P (raise e)" by (rule keeps_emits) (rule keeps_raise)
lemma emits_case_prod: "(\<And>a b. emits P (f a b)) \<Longrightarrow> emits P (case p of (a, b) \<Rightarrow> f a b)"
  by (cases p) simp
lemma emits_case_option: "emits P m \<Longrightarrow> (\<And>a. emits P (f a)) \<Longrightarrow> emits P (case x of None \<Rightarrow> m | Some a \<Rightarrow> f a)"
  by (cases x) simp_all
lemma emits_let: "emits P (f a) \<Longrightarrow> emits P (let x = a in f x)" by simp
lemmas emits_rules = emits_bind emits_ret emits_get emits_raise emits_case_prod emits_case_option emits_let

lemma emits_append_history: "emits P (append_history t)"
  unfolding emits_def append_history_def by (intro allI impI exI [of _ "[]"]) auto

lemma emits_set_project_file: "emits P (set_project_file f c)"
  unfolding emits_def set_project_file_def by (intro allI impI exI [of _ "[]"]) auto

lemma emits_upload_file: "emits P (upload_file w p c)"
  unfolding emits_def
proof (intro allI impI)
  fix s r s1
  assume "upload_file w p c s = (r, s1)"
  from upload_file_spec [OF this] have "emitted s1 = emitted s @ []" by simp
  then show "\<exists>evs. emitted s1 = emitted s @ evs \<and> list_all P evs" by (intro exI [of _ "[]"]) simp
qed

lemma emits_emit_tokens: "emits progress (emit_tokens cs)"
  by (induction cs) (auto intro!: emits_rules emits_emit simp: progress_def)

lemma emits_upload_all_emit: "emits progress (upload_all_emit w fs)"
proof (induction fs)
  case Nil
  show ?case by (simp add: emits_ret)
next
  case (Cons a fs)
  obtain f c where "a = (f, c)" by (cases a)
  with Cons.IH show ?case
    by (auto intro!: emits_rules emits_upload_file emits_set_project_file emits_emit simp: progress_def)
qed

lemma emits_stream_generate: "emits progress (stream_generate w prompt)"
  unfolding stream_generate_def
  by (intro emits_rules emits_emit_tokens emits_upload_all_emit emits_append_history
        keeps_emits [OF keeps_inner_chat_stream] keeps_emits [OF keeps_inner_web_ensure_sandbox])

lemma emits_deploy_and_preview: "emits progress (deploy_and_preview w)"
  by (rule keeps_emits) (rule keeps_inner_deploy_and_preview)

lemma emits_preview_event:
  "emits progress (case p of Some pv \<Rightarrow> emit (Preview_event (url pv) (token pv)) | None \<Rightarrow> ret ())"
  by (cases p) (auto intro!: emits_ret emits_emit simp: progress_def)

text \<open>The sequence of a chat turn up to the preview event, and its last step.\<close>

lemma chat_body_split:
  "chat_body w prompt =
     bind (bind (stream_generate w prompt) (\<lambda>_.
           bind (deploy_and_preview w) (\<lambda>p.
           case p of Some pv \<Rightarrow> emit (Preview_event (url pv) (token pv)) | None \<Rightarrow> ret ())))
          (\<lambda>_. bind (get list_files) (\<lambda>names. emit (Complete names)))"
  unfolding chat_body_def
  by (rule ext) (simp add: bind_def split: prod.splits sum.splits)

lemma chat_body_events:
  assumes "chat_body w prompt s = (r, s0)"
  shows "\<exists>evs. list_all progress evs \<and>
           (case r of Inl e \<Rightarrow> emitted s0 = emitted s @ evs
                    | Inr _ \<Rightarrow> emitted s0 = emitted s @ evs @ [Complete (list_files s0)])"
proof -
  let ?front = "bind (stream_generate w prompt) (\<lambda>_.
           bind (deploy_and_preview w) (\<lambda>p.
           case p of Some pv \<Rightarrow> emit (Preview_event (url pv) (token pv)) | None \<Rightarrow> ret ()))"
  have front: "emits progress ?front"
    by (intro emits_bind emits_stream_generate emits_deploy_and_preview emits_preview_event)
  obtain r1 s1 where f1: "?front s = (r1, s1)" by (cases "?front s")
  from emitsD [OF front f1] obtain evs where evs: "emitted s1 = emitted s @ evs" "list_all progress evs"
    by blast
  show ?thesis
  proof (cases r1)
    case (Inl e)
    with f1 assms have "r = Inl e" "s0 = s1"
      by (simp_all add: chat_body_split bind_def)
    with evs show ?thesis by auto
  next
    case (Inr a)
    with f1 assms have "r = Inr ()" "s0 = s1\<lparr>emitted := emitted s1 @ [Complete (list_files s1)]\<rparr>"
      by (auto simp: chat_body_split bind_def get_def emit_def)
    with evs show ?thesis by (auto simp: list_files_def get_project_files_def)
  qed
qed

text \<open>
  C4. When an exception \<open>e\<close> is raised anywhere in the sequence of a streaming chat turn
  (token stream, resolution, upload, deployment, preview), the events of the turn are
  token, code and preview events followed by one \<open>error\<close> event that carries \<open>e\<close>: exactly
  one \<open>error\<close> event, nothing after it, and no \<open>complete\<close> event in the turn.
\<close>

theorem error_event_is_terminal:
  assumes "chat_body w prompt s = (Inl e, s0)"
  shows "\<exists>evs. emitted (snd (chat_turn w prompt s)) = emitted s @ evs @ [Error_event e] \<and>
               list_all progress evs"
proof -
  from chat_body_events [OF assms] obtain evs where "list_all progress evs" "emitted s0 = emitted s @ evs"
    by auto
  moreover from assms have "chat_turn w prompt s = (Inr (), s0\<lparr>emitted := emitted s0 @ [Error_event e]\<rparr>)"
    by (simp add: chat_turn_def try_except_def emit_def)
  ultimately show ?thesis by auto
qed

lemma broken_stream_body:
  "fst (chat_body broken_stream ''a page'' ready) = Inl (Failure ''connection lost'')"
  by code_simp

theorem error_event_is_terminal_witness:
  "\<exists>evs. emitted (snd (chat_turn broken_stream ''a page'' ready)) =
           emitted ready @ evs @ [Error_event (Failure ''connection lost'')] \<and>
         list_all progress evs"
proof -
  have "chat_body broken_stream ''a page'' ready =
          (Inl (Failure ''connection lost''), snd (chat_body broken_stream ''a page'' ready))"
    using broken_stream_body by (simp add: prod_eq_iff)
  from error_event_is_terminal [OF this] show ?thesis .
qed


lemma keeps_inner_history: "keeps inner m \<Longrightarrow> keeps history m"
  by (simp add: keeps_def inner_def)

lemma recordsD:
  "records t m \<Longrightarrow> m s = (r, s1) \<Longrightarrow>
   history s1 = (case r of Inr _ \<Rightarrow> history s @ [t] | Inl _ \<Rightarrow> history s)"
  unfolding records_def by blast

lemma records_bind:
  assumes m: "keeps history m" and f: "\<And>a. records t (f a)"
  shows "records t (bind m f)"
  unfolding records_def
proof (intro allI impI)
  fix s r s1
  assume run: "bind m f s = (r, s1)"
  obtain r0 s0 where ms: "m s = (r0, s0)" by (cases "m s")
  note same = keepsD [OF m ms]
  show "history s1 = (case r of Inr _ \<Rightarrow> history s @ [t] | Inl _ \<Rightarrow> history s)"
  proof (cases r0)
    case (Inl e)
    with ms run have "r = Inl e" "s1 = s0" by (simp_all add: bind_def)
    with same show ?thesis by simp
  next
    case (Inr a)
    with ms run have "f a s0 = (r, s1)" by (simp add: bind_def)
    from recordsD [OF f this] same show ?thesis by (simp split: sum.split)
  qed
qed

lemma records_ret:
  assumes m: "records t m"
  shows "records t (bind m (\<lambda>_. ret a))"
  unfolding records_def
proof (intro allI impI)
  fix s r s1
  assume run: "bind m (\<lambda>_. ret a) s = (r, s1)"
  obtain r0 s0 where ms: "m s = (r0, s0)" by (cases "m s")
  note first = recordsD [OF m ms]
  show "history s1 = (case r of Inr _ \<Rightarrow> history s @ [t] | Inl _ \<Rightarrow> history s)"
  proof (cases r0)
    case (Inl e)
    with ms run have "r = Inl e" "s1 = s0" by (simp_all add: bind_def)
    with first Inl show ?thesis by simp
  next
    case (Inr b)
    with ms run have "r = Inr a" "s1 = s0" by (simp_all add: bind_def ret_def)
    with first Inr show ?thesis by simp
  qed
qed

lemma records_append: "records t (append_history t)"
  by (simp add: records_def append_history_def)

lemma records_raise: "records t (raise e)"
  by (simp add: records_def raise_def)

lemma keeps_history_emit: "keeps history (emit ev)"
  by (simp add: keeps_def emit_def)

lemma keeps_history_set_project_file: "keeps history (set_project_file f c)"
  by (simp add: keeps_def set_project_file_def)

lemma keeps_history_upload_file: "keeps history (upload_file w p c)"
  unfolding keeps_def using upload_file_spec by blast

lemma keeps_history_emit_tokens: "keeps history (emit_tokens cs)"
  by (induction cs) (auto intro!: keeps_rules keeps_history_emit)

lemma keeps_history_upload_all: "keeps history (upload_all w fs)"
proof (induction fs)
  case Nil
  show ?case by (simp add: keeps_ret)
next
  case (Cons a fs)
  obtain f c where "a = (f, c)" by (cases a)
  with Cons.IH show ?case
    by (auto intro!: keeps_rules keeps_history_upload_file keeps_history_set_project_file)
qed

lemma keeps_history_upload_all_emit: "keeps history (upload_all_emit w fs)"
proof (induction fs)
  case Nil
  show ?case by (simp add: keeps_ret)
next
  case (Cons a fs)
  obtain f c where "a = (f, c)" by (cases a)
  with Cons.IH show ?case
    by (auto intro!: keeps_rules keeps_history_upload_file keeps_history_set_project_file
          keeps_history_emit)
qed

lemma call_history: "call w eff s = (r, s1) \<Longrightarrow> history s1 = history s"
  by (auto simp: call_def Let_def split: option.splits)

lemma call_index: "call w eff s = (Inr n, s1) \<Longrightarrow> n = length (effects s)"
  by (auto simp: call_def Let_def split: option.splits)

lemma stream_generate_history:
  assumes "stream_generate w p s = (r, s1)"
  shows "history s1 =
           (case r of
              Inr _ \<Rightarrow> history s @
                        [Generate_web p (map fst (parse_web_files (streamed_response w s))) None]
            | Inl _ \<Rightarrow> history s)"
proof -
  let ?msgs = "web_messages ''I created these files: '' (history s) p"
  obtain r0 s0 where c: "call w (Stream ?msgs) s = (r0, s0)"
    by (cases "call w (Stream ?msgs) s")
  note cr = call_history [OF c]
  show ?thesis
  proof (cases r0)
    case (Inl e)
    with c assms cr show ?thesis
      by (auto simp: stream_generate_def bind_def get_def chat_stream_def)
  next
    case (Inr n)
    with c have n: "n = length (effects s)" by (simp add: call_index)
    let ?chunks = "filter (\<lambda>chunk. chunk \<noteq> []) (fst (stream w n))"
    let ?t = "Generate_web p (map fst (parse_web_files (concat ?chunks))) None"
    let ?rest = "bind (emit_tokens ?chunks) (\<lambda>_.
       case snd (stream w n) of
         Some m \<Rightarrow> raise (Failure m)
       | None \<Rightarrow>
           let fs = parse_web_files (concat ?chunks) in
           bind (web_ensure_sandbox w) (\<lambda>_.
           bind (upload_all_emit w fs) (\<lambda>_.
           append_history (Generate_web p (map fst fs) None))))"
    have rec: "records ?t ?rest"
      apply (rule records_bind [OF keeps_history_emit_tokens])
      apply (cases "snd (stream w n)")
       apply (simp add: Let_def)
       apply (intro records_bind records_append keeps_history_upload_all_emit
          keeps_inner_history [OF keeps_inner_web_ensure_sandbox])
      apply (simp add: records_raise)
      done
    from c Inr assms have "?rest s0 = (r, s1)"
      by (simp add: stream_generate_def bind_def get_def chat_stream_def ret_def)
    from recordsD [OF rec this] cr n show ?thesis
      by (simp add: streamed_response_def split: sum.split)
  qed
qed

lemma generate_web_code_history:
  assumes "generate_web_code w p s = (r, s1)"
  shows "history s1 =
           (case r of
              Inr _ \<Rightarrow> history s @
                        [Generate_web p (map fst (parse_web_files (batch_response w s)))
                           (Some (batch_response w s))]
            | Inl _ \<Rightarrow> history s)"
proof -
  let ?msgs = "web_messages ''I created the following files: '' (history s) p"
  obtain r0 s0 where c: "call w (Chat ?msgs) s = (r0, s0)"
    by (cases "call w (Chat ?msgs) s")
  note cr = call_history [OF c]
  show ?thesis
  proof (cases r0)
    case (Inl e)
    with c assms cr show ?thesis
      by (auto simp: generate_web_code_def bind_def get_def chat_def)
  next
    case (Inr n)
    with c have n: "n = length (effects s)" by (simp add: call_index)
    let ?fs = "parse_web_files (completion w n)"
    let ?t = "Generate_web p (map fst ?fs) (Some (completion w n))"
    let ?rest = "bind (web_ensure_sandbox w) (\<lambda>_.
       bind (upload_all w ?fs) (\<lambda>_.
       bind (append_history ?t) (\<lambda>_.
       ret \<lparr>message = ''Code generated successfully'', result_files = ?fs,
            primary_code = (case map_of ?fs ''index.html'' of Some c \<Rightarrow> c | None \<Rightarrow> [])\<rparr>)))"
    have rec: "records ?t ?rest"
      by (intro records_bind records_ret records_append keeps_history_upload_all
          keeps_inner_history [OF keeps_inner_web_ensure_sandbox])
    from c Inr assms have "?rest s0 = (r, s1)"
      by (simp add: generate_web_code_def bind_def get_def chat_def ret_def Let_def)
    from recordsD [OF rec this] cr n show ?thesis
      by (simp add: batch_response_def split: sum.split)
  qed
qed

lemma chat_turn_history:
  "history (snd (chat_turn w p s)) = history (snd (stream_generate w p s))"
proof -
  let ?tail = "\<lambda>_::unit. bind (deploy_and_preview w) (\<lambda>p.
     bind (case p of Some pv \<Rightarrow> emit (Preview_event (url pv) (token pv)) | None \<Rightarrow> ret ()) (\<lambda>_.
     bind (get list_files) (\<lambda>names.
     emit (Complete names))))"
  have tail: "keeps history (?tail x)" for x
    by (intro keeps_rules keeps_history_emit keeps_inner_history [OF keeps_inner_deploy_and_preview])
  have handler: "keeps history (emit (Error_event e))" for e
    by (rule keeps_history_emit)
  obtain r0 s0 where sg: "stream_generate w p s = (r0, s0)" by (cases "stream_generate w p s")
  obtain r1 s1 where ct: "chat_turn w p s = (r1, s1)" by (cases "chat_turn w p s")
  have "history s1 = history s0"
  proof (cases r0)
    case (Inl e)
    with sg ct have "emit (Error_event e) s0 = (r1, s1)"
      by (simp add: chat_turn_def chat_body_def try_except_def bind_def)
    from keepsD [OF handler this] show ?thesis .
  next
    case (Inr x)
    obtain r2 s2 where tl: "?tail x s0 = (r2, s2)" by (cases "?tail x s0")
    from keepsD [OF tail tl] have h2: "history s2 = history s0" .
    show ?thesis
    proof (cases r2)
      case (Inl e)
      with sg Inr tl ct have "emit (Error_event e) s2 = (r1, s1)"
        by (simp add: chat_turn_def chat_body_def try_except_def bind_def)
      from keepsD [OF handler this] h2 show ?thesis by simp
    next
      case (Inr y)
      with sg \<open>r0 = Inr x\<close> tl ct have "s1 = s2"
        by (simp add: chat_turn_def chat_body_def try_except_def bind_def)
      with h2 show ?thesis by simp
    qed
  qed
  with sg ct show ?thesis by simp
qed

lemma chat_endpoint_history:
  "history (snd (chat_endpoint w p s)) = history (snd (generate_web_code w p s))"
proof -
  have tail: "keeps history (bind (deploy_and_preview w) (\<lambda>_. ret x))" for x :: web_result
    by (intro keeps_rules keeps_inner_history [OF keeps_inner_deploy_and_preview])
  obtain r0 s0 where g: "generate_web_code w p s = (r0, s0)" by (cases "generate_web_code w p s")
  show ?thesis
  proof (cases r0)
    case (Inl e)
    with g show ?thesis by (simp add: chat_endpoint_def bind_def)
  next
    case (Inr x)
    obtain r2 s2 where tl: "bind (deploy_and_preview w) (\<lambda>_. ret x) s0 = (r2, s2)"
      by (cases "bind (deploy_and_preview w) (\<lambda>_. ret x) s0")
    from keepsD [OF tail tl] have "history s2 = history s0" .
    with g Inr tl show ?thesis by (simp add: chat_endpoint_def bind_def)
  qed
qed

text \<open>
  C5, as amended. A \<open>generate_web\<close> turn with the prompt and the names of the resolved
  files is appended to the history exactly when the generation itself (\<open>stream_generate\<close>
  or \<open>generate_web_code\<close>: LLM call, resolution, sandbox, uploads) returns; when it raises,
  the history is as before. Deployment and preview, which the endpoints run after the
  generation, never change the history, whether they succeed or fail.
\<close>

theorem turn_recorded_iff_generation_returns:
  "(\<forall>x s1. stream_generate w p s = (Inr x, s1) \<longrightarrow>
      history s1 =
        history s @ [Generate_web p (map fst (parse_web_files (streamed_response w s))) None]) \<and>
   (\<forall>e s1. stream_generate w p s = (Inl e, s1) \<longrightarrow> history s1 = history s) \<and>
   (\<forall>x s1. generate_web_code w p s = (Inr x, s1) \<longrightarrow>
      history s1 =
        history s @ [Generate_web p (map fst (parse_web_files (batch_response w s)))
                       (Some (batch_response w s))]) \<and>
   (\<forall>e s1. generate_web_code w p s = (Inl e, s1) \<longrightarrow> history s1 = history s) \<and>
   history (snd (chat_turn w p s)) = history (snd (stream_generate w p s)) \<and>
   history (snd (chat_endpoint w p s)) = history (snd (generate_web_code w p s))"
proof (intro conjI allI impI)
  fix x s1
  assume "stream_generate w p s = (Inr x, s1)"
  from stream_generate_history [OF this]
  show "history s1 =
      history s @ [Generate_web p (map fst (parse_web_files (streamed_response w s))) None]"
    by simp
next
  fix e s1
  assume "stream_generate w p s = (Inl e, s1)"
  from stream_generate_history [OF this] show "history s1 = history s"
    by simp
next
  fix x s1
  assume "generate_web_code w p s = (Inr x, s1)"
  from generate_web_code_history [OF this]
  show "history s1 =
      history s @ [Generate_web p (map fst (parse_web_files (batch_response w s)))
                     (Some (batch_response w s))]"
    by simp
next
  fix e s1
  assume "generate_web_code w p s = (Inl e, s1)"
  from generate_web_code_history [OF this] show "history s1 = history s"
    by simp
next
  show "history (snd (chat_turn w p s)) = history (snd (stream_generate w p s))"
    by (rule chat_turn_history)
next
  show "history (snd (chat_endpoint w p s)) = history (snd (generate_web_code w p s))"
    by (rule chat_endpoint_history)
qed

text \<open>
  A turn whose deployment fails after a successful generation ends with an \<open>error\<close> event
  and still has its history entry.
\<close>

lemma broken_deploy_body:
  "fst (chat_body broken_deploy ''a page'' ready) = Inl (Failure ''boom'')"
  by code_simp

lemma broken_deploy_history:
  "history (snd (chat_turn broken_deploy ''a page'' ready)) =
     [Generate_web ''a page'' [''index.html''] None]"
  by code_simp

theorem deploy_failure_keeps_turn_counterexample:
  "fst (chat_body broken_deploy ''a page'' ready) = Inl (Failure ''boom'') \<and>
   history ready = [] \<and>
   history (snd (chat_turn broken_deploy ''a page'' ready)) =
     [Generate_web ''a page'' [''index.html''] None]"
proof (intro conjI)
  show "fst (chat_body broken_deploy ''a page'' ready) = Inl (Failure ''boom'')"
    by (rule broken_deploy_body)
  show "history ready = []"
    by (simp add: ready_def init_def)
  show "history (snd (chat_turn broken_deploy ''a page'' ready)) =
      [Generate_web ''a page'' [''index.html''] None]"
    by (rule broken_deploy_history)
qed

lemma calm_stream_returns: "fst (stream_generate calm ''a page'' ready) = Inr ()"
  by code_simp

lemma calm_stream_names:
  "map fst (parse_web_files (streamed_response calm ready)) = [''index.html'']"
  by code_simp

theorem turn_recorded_iff_generation_returns_witness:
  "fst (stream_generate calm ''a page'' ready) = Inr () \<and>
   history (snd (stream_generate calm ''a page'' ready)) =
     history ready @ [Generate_web ''a page'' [''index.html''] None]"
proof -
  have "stream_generate calm ''a page'' ready =
          (Inr (), snd (stream_generate calm ''a page'' ready))"
    using calm_stream_returns by (simp add: prod_eq_iff)
  with turn_recorded_iff_generation_returns [of calm "''a page''" ready]
  have "history (snd (stream_generate calm ''a page'' ready)) =
          history ready @
          [Generate_web ''a page'' (map fst (parse_web_files (streamed_response calm ready))) None]"
    by blast
  with calm_stream_returns show ?thesis
    by (simp only: calm_stream_names)
qed

section \<open>The auto-fix loop\<close>













end
